theory Spec2Isabelle
  imports Main "HOL-Library.Word" "HOL-Library.Multiset"
begin

unbundle bit_operations_syntax

section \<open>Data model of huffman.cpp\<close>

text \<open>
  A \<open>char\<close> and a \<open>uint8_t\<close> are both kept as their 8-bit pattern. \<open>char\<close> is signed
  (the x86-64 ABI the program is built for), so the \<open>char\<close> with pattern \<open>0xFF\<close> is
  \<open>-1\<close>, which is \<open>EOF\<close>: the test \<open>t->value != EOF\<close> is a test of the pattern against
  \<open>0xFF\<close>. A \<open>std::string\<close> is a list of such bytes.

  A \<open>std::size_t\<close> that a caller can set to any value (a weight) is a 64-bit word and
  wraps. Sizes of containers, positions in them and counts of bits read or written are
  natural numbers: they are bounded by the memory that holds the container.
\<close>

type_synonym byte = "8 word"
type_synonym size_t = "64 word"

text \<open>
  The two \<open>std::runtime_error\<close>s that \<open>build_tree\<close> throws are \<open>EmptyInputError\<close> and
  \<open>SingleSymbolError\<close>. \<open>UnknownSymbolError\<close> and \<open>InvalidFormatError\<close> are the other two
  error kinds of the specification. \<open>UndefinedBehaviour\<close> is the outcome of an execution
  that leaves defined C++: a dereferenced null pointer, \<open>front()\<close> of an empty vector, an
  index outside a vector or a read outside the buffer.
\<close>

datatype error =
  EmptyInputError | SingleSymbolError | UnknownSymbolError | InvalidFormatError
  | UndefinedBehaviour

definition EOF :: byte where
  "EOF = 0xFF"

definition OPEN :: byte where
  "OPEN = 0x80"

definition CLOSE :: byte where
  "CLOSE = 0x81"

text \<open>
  \<open>using Tree = Node *\<close>: a tree is the null pointer or points to a node with its left
  child, its right child and its value (lines 40-79).
\<close>

datatype Tree = nullptr | Node Tree Tree byte

text \<open>\<open>Weighted_Node\<close> (lines 111-154): the fields of a node and a weight.\<close>

datatype Weighted_Node = Weighted_Node Tree Tree byte size_t

fun weight :: "Weighted_Node \<Rightarrow> size_t" where
  "weight (Weighted_Node l r v w) = w"

text \<open>\<open>new Node(std::move(n))\<close> for a weighted node \<open>n\<close>: the node part, on the heap.\<close>

fun new_Node :: "Weighted_Node \<Rightarrow> Tree" where
  "new_Node (Weighted_Node l r v w) = Node l r v"

type_synonym Heap = "Weighted_Node list"
type_synonym Code = "bool list"

text \<open>
  \<open>std::size_t(c)\<close> for a \<open>char c\<close>: the sign extension read as unsigned. A byte
  from \<open>0x80\<close> on is a negative \<open>char\<close> and gives an index of at least \<open>2^64 - 128\<close>.
\<close>

definition char_index :: "byte \<Rightarrow> nat" where
  "char_index c = (if c < 0x80 then unat c else 2 ^ 64 - 256 + unat c)"

text \<open>\<open>p >>= 1\<close> on a \<open>uint8_t\<close> mask: the loops over a mask end.\<close>

lemma shift_right_less: "p \<noteq> 0 \<Longrightarrow> unat (drop_bit 1 p :: byte) < unat p"
proof -
  assume "p \<noteq> 0"
  then have "0 < unat p" by (simp add: unat_gt_0)
  then have "unat p div 2 < unat p" by simp
  moreover have "unat (drop_bit 1 p) = unat p div 2"
    by (simp add: drop_bit_eq_div unat_div)
  ultimately show ?thesis by simp
qed

lemma shift_right_less_iff: "unat (drop_bit (Suc 0) p :: byte) < unat p \<longleftrightarrow> p \<noteq> 0"
  using shift_right_less [of p] by auto

section \<open>Serialization: \<open>_sequence\<close> and \<open>sequence\<close> (lines 85-108)\<close>

text \<open>
  The vector \<open>v\<close> is passed by reference and grows; the model returns it.
  \<open>t->left\<close> on a null \<open>t\<close> is undefined behaviour.
\<close>

fun sequence_helper :: "byte list \<Rightarrow> Tree \<Rightarrow> error + byte list" where
  "sequence_helper v nullptr = Inl UndefinedBehaviour"
| "sequence_helper v (Node l r x) =
     (let v1 = v @ [0x80] in
      if l \<noteq> nullptr then
        (case sequence_helper v1 l of
           Inl e \<Rightarrow> Inl e
         | Inr v2 \<Rightarrow>
             (case sequence_helper (v2 @ [x]) r of
                Inl e \<Rightarrow> Inl e
              | Inr v3 \<Rightarrow> Inr (v3 @ [0x81])))
      else Inr (v1 @ [x] @ [0x81]))"

definition sequence :: "Tree \<Rightarrow> error + byte list" where
  "sequence t = sequence_helper [] t"

section \<open>Building a tree from weights (lines 208-265)\<close>

text \<open>
  Modelled from the contract of the C++ standard library: \<open>std::make_heap\<close>,
  \<open>std::pop_heap\<close> and \<open>std::push_heap\<close> are library code, not code of the program.
  The comparator is \<open>a.weight >= b.weight\<close>, so the heap is a min-heap on the weight.
  The standard fixes the contract only: the range is a heap afterwards, \<open>pop_heap\<close> moves
  the front to the back and leaves a heap before it, \<open>push_heap\<close> takes the back into the
  heap before it; which of several nodes of equal weight comes first is left open. The
  model is one implementation of that contract: the heap range is kept sorted by weight
  (a sorted range is a min-heap). The properties below do not mention the order of
  nodes of equal weight.
\<close>

definition make_heap :: "Heap \<Rightarrow> Heap" where
  "make_heap heap = sort_key weight heap"

definition pop_heap :: "Heap \<Rightarrow> Heap" where
  "pop_heap heap = (case heap of [] \<Rightarrow> [] | x # xs \<Rightarrow> xs @ [x])"

definition push_heap :: "Heap \<Rightarrow> Heap" where
  "push_heap heap =
     (if heap = [] then [] else insort_key weight (last heap) (butlast heap))"

definition pop_back :: "'a list \<Rightarrow> 'a list" where
  "pop_back xs = butlast xs"

text \<open>
  Lines 213-217: \<open>while (!heap.front().weight) { pop_heap; pop_back; }\<close>. The loop has no
  test for an empty heap: \<open>front()\<close> of an empty vector is undefined behaviour.
\<close>

function drop_zero_weights :: "Heap \<Rightarrow> error + Heap" where
  "drop_zero_weights heap =
     (case heap of
        [] \<Rightarrow> Inl UndefinedBehaviour
      | front # _ \<Rightarrow>
          if weight front = 0 then drop_zero_weights (pop_back (pop_heap heap))
          else Inr heap)"
  by pat_completeness auto
termination
  by (relation "measure length") (auto simp: pop_heap_def pop_back_def)

text \<open>Lines 224-234: the merging loop.\<close>

function merge_nodes :: "Heap \<Rightarrow> Heap" where
  "merge_nodes heap =
     (if length heap > 1 then
        (let heap1 = pop_heap heap;
             left = last heap1;
             heap2 = pop_back heap1;
             heap3 = pop_heap heap2;
             right = last heap3;
             w = weight left + weight right;
             heap4 = butlast heap3 @ [Weighted_Node (new_Node left) (new_Node right) EOF w]
         in merge_nodes (push_heap heap4))
      else heap)"
  by pat_completeness auto
termination
  by (relation "measure length")
    (auto simp: Let_def pop_heap_def pop_back_def push_heap_def split: list.splits)

declare drop_zero_weights.simps [simp del] merge_nodes.simps [simp del]

definition build_tree_Heap :: "Heap \<Rightarrow> error + Tree" where
  "build_tree_Heap heap0 =
     (case drop_zero_weights (make_heap heap0) of
        Inl e \<Rightarrow> Inl e
      | Inr heap \<Rightarrow>
          if length heap = 0 then Inl EmptyInputError
          else if length heap = 1 then Inl SingleSymbolError
          else (case merge_nodes heap of
                  [] \<Rightarrow> Inl UndefinedBehaviour
                | root # _ \<Rightarrow> Inr (new_Node root)))"

text \<open>
  \<open>Heap heap(128)\<close>: 128 default weighted nodes (null children, value \<open>EOF\<close>, weight 0).
\<close>

definition Heap_128 :: Heap where
  "Heap_128 = replicate 128 (Weighted_Node nullptr nullptr EOF 0)"

fun set_value :: "byte \<Rightarrow> Weighted_Node \<Rightarrow> Weighted_Node" where
  "set_value c (Weighted_Node l r v w) = Weighted_Node l r c w"

fun set_weight :: "size_t \<Rightarrow> Weighted_Node \<Rightarrow> Weighted_Node" where
  "set_weight n (Weighted_Node l r v w) = Weighted_Node l r v n"

text \<open>Lines 245-246: \<open>for (i = 0; i < 128; i++) heap[i].value = char(i)\<close>.\<close>

fun set_values :: "nat list \<Rightarrow> Heap \<Rightarrow> error + Heap" where
  "set_values [] heap = Inr heap"
| "set_values (i # is) heap =
     (if i < length heap then set_values is (heap[i := set_value (of_nat i) (heap ! i)])
      else Inl UndefinedBehaviour)"

text \<open>Lines 247-248: \<open>for (const auto &i : s) heap[i].weight++\<close>, \<open>i\<close> a \<open>char\<close>.\<close>

fun count_chars :: "byte list \<Rightarrow> Heap \<Rightarrow> error + Heap" where
  "count_chars [] heap = Inr heap"
| "count_chars (i # s) heap =
     (if char_index i < length heap then
        count_chars s (heap[char_index i := set_weight (weight (heap ! char_index i) + 1) (heap ! char_index i)])
      else Inl UndefinedBehaviour)"

definition build_tree_string :: "byte list \<Rightarrow> error + Tree" where
  "build_tree_string s =
     (case set_values [0..<128] Heap_128 of
        Inl e \<Rightarrow> Inl e
      | Inr heap1 \<Rightarrow>
          (case count_chars s heap1 of
             Inl e \<Rightarrow> Inl e
           | Inr heap \<Rightarrow> build_tree_Heap heap))"

text \<open>
  Lines 256-265: a \<open>Counter\<close> is a vector of weights (128 of them when it is made by its
  constructor); \<open>heap[i]\<close> for \<open>i < counter.size()\<close> gets value \<open>char(i)\<close> and weight
  \<open>counter[i]\<close>.
\<close>

fun set_counts :: "nat list \<Rightarrow> size_t list \<Rightarrow> Heap \<Rightarrow> error + Heap" where
  "set_counts [] counter heap = Inr heap"
| "set_counts (i # is) counter heap =
     (if i < length heap \<and> i < length counter then
        set_counts is counter
          (heap[i := set_weight (counter ! i) (set_value (of_nat i) (heap ! i))])
      else Inl UndefinedBehaviour)"

definition build_tree_Counter :: "size_t list \<Rightarrow> error + Tree" where
  "build_tree_Counter counter =
     (case set_counts [0..<length counter] counter Heap_128 of
        Inl e \<Rightarrow> Inl e
      | Inr heap \<Rightarrow> build_tree_Heap heap)"

section \<open>Rebuilding a tree from its serialization (lines 273-295)\<close>

text \<open>
  The iterators are positions in one buffer \<open>buf\<close>. A read at a position outside the
  buffer is undefined behaviour. Lines 283-290: \<open>while (count) { ...; p++; }\<close> with
  \<open>uint8_t count\<close>, which wraps.
\<close>

function scan_count :: "byte list \<Rightarrow> nat \<Rightarrow> byte \<Rightarrow> error + nat" where
  "scan_count buf p cnt =
     (if cnt = 0 then Inr p
      else if p < length buf then
        scan_count buf (p + 1)
          (if buf ! p = 0x80 then cnt + 1
           else if buf ! p = 0x81 then cnt - 1
           else cnt)
      else Inl UndefinedBehaviour)"
  by pat_completeness auto
termination
  by (relation "measure (\<lambda>(buf, p, cnt). length buf - p)") auto

declare scan_count.simps [simp del]

lemma scan_count_ge: "scan_count buf p cnt = Inr q \<Longrightarrow> p \<le> q"
proof (induction buf p cnt rule: scan_count.induct)
  case (1 buf p cnt)
  show ?case
  proof (cases "cnt = 0")
    case True
    with "1.prems" show ?thesis by (simp add: scan_count.simps [of buf p])
  next
    case False
    show ?thesis
    proof (cases "p < length buf")
      case True
      with \<open>cnt \<noteq> 0\<close> "1.prems" have
        "scan_count buf (p + 1)
           (if buf ! p = 0x80 then cnt + 1 else if buf ! p = 0x81 then cnt - 1 else cnt) = Inr q"
        by (simp add: scan_count.simps [of buf p cnt])
      with "1.IH" [OF \<open>cnt \<noteq> 0\<close> True] show ?thesis by simp
    next
      case False
      with \<open>cnt \<noteq> 0\<close> "1.prems" show ?thesis
        by (simp add: scan_count.simps [of buf p cnt])
    qed
  qed
qed

text \<open>
  \<open>build_tree(begin, end)\<close>: \<open>bgn\<close> and \<open>en\<close> are the positions of \<open>begin\<close> and \<open>end\<close>.
  \<open>end - 1\<close> at the start of the buffer would be a pointer before it.
\<close>

function build_tree_range :: "byte list \<Rightarrow> nat \<Rightarrow> nat \<Rightarrow> error + Tree" where
  "build_tree_range buf bgn en =
     (if bgn + 1 = en then Inr nullptr
      else if bgn + 1 < length buf then
        (if buf ! (bgn + 1) = 0x80 then
           (case scan_count buf (bgn + 2) 1 of
              Inl e \<Rightarrow> Inl e
            | Inr p \<Rightarrow>
                if p < length buf \<and> 0 < en then
                  (case build_tree_range buf (bgn + 1) p of
                     Inl e \<Rightarrow> Inl e
                   | Inr l \<Rightarrow>
                       (case build_tree_range buf (p + 1) (en - 1) of
                          Inl e \<Rightarrow> Inl e
                        | Inr r \<Rightarrow> Inr (Node l r (buf ! p))))
                else Inl UndefinedBehaviour)
         else Inr (Node nullptr nullptr (buf ! (bgn + 1))))
      else Inl UndefinedBehaviour)"
  by pat_completeness auto
termination
  by (relation "measure (\<lambda>(buf, bgn, en). length buf - bgn)")
    (auto dest: scan_count_ge)

declare build_tree_range.simps [simp del]

section \<open>The code table: \<open>_generate_code\<close> and \<open>generate_code\<close> (lines 304-329)\<close>

text \<open>\<open>Code(v, l)\<close>: a copy of \<open>v\<close> resized to \<open>l\<close> bits.\<close>

definition resize :: "bool list \<Rightarrow> nat \<Rightarrow> bool list" where
  "resize v l = take l v @ replicate (l - length v) False"

text \<open>
  \<open>code\<close> and \<open>path\<close> are passed by reference; the model returns both. \<open>depth\<close> is a
  \<open>uint8_t\<close>; \<open>path[depth]\<close> leaves the 128 bits of \<open>path\<close> at 128, before \<open>depth\<close>
  could wrap.
\<close>

fun generate_code_helper ::
  "Tree \<Rightarrow> Code list \<Rightarrow> bool list \<Rightarrow> nat \<Rightarrow> error + (Code list \<times> bool list)" where
  "generate_code_helper nullptr code path depth = Inl UndefinedBehaviour"
| "generate_code_helper (Node l r v) code path depth =
     (if \<not> (l \<noteq> nullptr \<or> r \<noteq> nullptr) then
        (if char_index v < length code
         then Inr (code[char_index v := resize path depth], path)
         else Inl UndefinedBehaviour)
      else if depth < length path then
        (case generate_code_helper r code (path[depth := True]) (depth + 1) of
           Inl e \<Rightarrow> Inl e
         | Inr (code1, path1) \<Rightarrow>
             if depth < length path1
             then generate_code_helper l code1 (path1[depth := False]) (depth + 1)
             else Inl UndefinedBehaviour)
      else Inl UndefinedBehaviour)"

definition generate_code :: "Tree \<Rightarrow> error + Code list" where
  "generate_code t =
     (case generate_code_helper t (replicate 128 []) (replicate 128 False) 0 of
        Inl e \<Rightarrow> Inl e
      | Inr (code, path) \<Rightarrow> Inr code)"

section \<open>The class \<open>HFMTree\<close> and its constructors (lines 35-36, 363-371)\<close>

record HFMTree =
  tree :: Tree
  code :: "Code list"

definition HFMTree_of_tree :: "error + Tree \<Rightarrow> error + HFMTree" where
  "HFMTree_of_tree built =
     (case built of
        Inl e \<Rightarrow> Inl e
      | Inr t \<Rightarrow>
          (case generate_code t of
             Inl e \<Rightarrow> Inl e
           | Inr c \<Rightarrow> Inr \<lparr>tree = t, code = c\<rparr>))"

definition HFMTree_string :: "byte list \<Rightarrow> error + HFMTree" where
  "HFMTree_string s = HFMTree_of_tree (build_tree_string s)"

definition HFMTree_Counter :: "size_t list \<Rightarrow> error + HFMTree" where
  "HFMTree_Counter c = HFMTree_of_tree (build_tree_Counter c)"

definition HFMTree_range :: "byte list \<Rightarrow> error + HFMTree" where
  "HFMTree_range buf = HFMTree_of_tree (build_tree_range buf 0 (length buf))"

section \<open>Encoding (lines 392-422)\<close>

text \<open>
  The state of the loops is the bytes written after the length field (\<open>result\<close>), the
  byte being filled (\<open>cache\<close>) and the mask of the next bit (\<open>p\<close>). Lines 399-410: the
  loop over the bits of one code.
\<close>

fun encode_code :: "Code \<Rightarrow> byte list \<times> byte \<times> byte \<Rightarrow> byte list \<times> byte \<times> byte" where
  "encode_code [] st = st"
| "encode_code (cj # c) (result, cache, p) =
     (let cache1 = (if cj then cache OR p else cache);
          p1 = drop_bit 1 p
      in if p1 = 0 then encode_code c (result @ [cache1], 0, 0x80)
         else encode_code c (result, cache1, p1))"

text \<open>Lines 396-411: \<open>code[std::size_t(i)]\<close> for every \<open>char i\<close> of the string.\<close>

fun encode_string ::
  "Code list \<Rightarrow> byte list \<Rightarrow> byte list \<times> byte \<times> byte \<Rightarrow> error + (byte list \<times> byte \<times> byte)" where
  "encode_string cd [] st = Inr st"
| "encode_string cd (i # s) st =
     (if char_index i < length cd
      then encode_string cd s (encode_code (cd ! char_index i) st)
      else Inl UndefinedBehaviour)"

text \<open>Lines 416-418: \<open>do extra++; while (p >>= 1);\<close>.\<close>

function count_extra :: "byte \<Rightarrow> nat \<Rightarrow> nat" where
  "count_extra p extra =
     (let extra1 = extra + 1; p1 = drop_bit 1 p
      in if p1 \<noteq> 0 then count_extra p1 extra1 else extra1)"
  by pat_completeness auto
termination
  by (relation "measure (\<lambda>(p, extra). unat p)")
    (auto simp: shift_right_less_iff)

declare count_extra.simps [simp del]

text \<open>
  The result is the pair of the bit length, which the code stores in the first
  \<open>sizeof(std::size_t)\<close> bytes of the vector, and the bytes after it.
\<close>

definition encode :: "HFMTree \<Rightarrow> byte list \<Rightarrow> error + (nat \<times> byte list)" where
  "encode h string =
     (case encode_string (code h) string ([], 0, 0x80) of
        Inl e \<Rightarrow> Inl e
      | Inr (result, cache, p) \<Rightarrow>
          if p \<noteq> 0x80
          then Inr (length (result @ [cache]) * 8 - count_extra p 0, result @ [cache])
          else Inr (length result * 8, result))"

section \<open>Decoding (lines 431-455)\<close>

text \<open>
  Lines 441-452: the loop over the masks \<open>p\<close> of one byte \<open>i\<close>. The state is the output
  \<open>v\<close>, the number of bits read \<open>count\<close> (\<open>cnt\<close>) and the cursor \<open>t\<close>. The \<open>break\<close> leaves this
  loop only; the loop over the bytes goes on.
\<close>

function decode_byte ::
  "Tree \<Rightarrow> nat \<Rightarrow> byte \<Rightarrow> byte \<Rightarrow> byte list \<times> nat \<times> Tree \<Rightarrow> error + (byte list \<times> nat \<times> Tree)" where
  "decode_byte root l2 i p (v, cnt, t) =
     (if p = 0 then Inr (v, cnt, t)
      else
        (case t of
           nullptr \<Rightarrow> Inl UndefinedBehaviour
         | Node l r x \<Rightarrow>
             (case (if p AND i \<noteq> 0 then r else l) of
                nullptr \<Rightarrow> Inl UndefinedBehaviour
              | Node l1 r1 x1 \<Rightarrow>
                  if x1 \<noteq> EOF then
                    (if cnt + 1 = l2 then Inr (v @ [x1], cnt + 1, root)
                     else decode_byte root l2 i (drop_bit 1 p) (v @ [x1], cnt + 1, root))
                  else decode_byte root l2 i (drop_bit 1 p) (v, cnt + 1, Node l1 r1 x1))))"
  by pat_completeness auto
termination
  by (relation "measure (\<lambda>(root, l2, i, p, st). unat p)")
    (auto simp: shift_right_less_iff)

declare decode_byte.simps [simp del]

text \<open>Lines 438-453: the loop over the bytes.\<close>

fun decode_bytes ::
  "Tree \<Rightarrow> nat \<Rightarrow> byte list \<Rightarrow> byte list \<times> nat \<times> Tree \<Rightarrow> error + (byte list \<times> nat \<times> Tree)" where
  "decode_bytes root l2 [] st = Inr st"
| "decode_bytes root l2 (i # bytes) st =
     (case decode_byte root l2 i 0x80 st of
        Inl e \<Rightarrow> Inl e
      | Inr st1 \<Rightarrow> decode_bytes root l2 bytes st1)"

definition decode :: "HFMTree \<Rightarrow> byte list \<Rightarrow> nat \<Rightarrow> error + byte list" where
  "decode h bytes l2 =
     (case decode_bytes (tree h) l2 bytes ([], 0, tree h) of
        Inl e \<Rightarrow> Inl e
      | Inr (v, cnt, t) \<Rightarrow> Inr v)"

section \<open>Notions for stating the properties\<close>

text \<open>
  A valid tree: every node is a leaf (no children) with a symbol from 0 to 127, or an
  internal node with two children and the value \<open>EOF\<close>.
\<close>

fun valid_tree :: "Tree \<Rightarrow> bool" where
  "valid_tree nullptr = False"
| "valid_tree (Node l r v) =
     (if l = nullptr \<and> r = nullptr then v < 0x80
      else l \<noteq> nullptr \<and> r \<noteq> nullptr \<and> v = EOF \<and> valid_tree l \<and> valid_tree r)"

text \<open>
  The format of the serialization in the words of the specification: a leaf is \<open>OPEN\<close>,
  its symbol, \<open>CLOSE\<close>; an internal node is \<open>OPEN\<close>, the serialization of the left
  subtree, one filler byte of any value, the serialization of the right subtree,
  \<open>CLOSE\<close>.
\<close>

inductive serializes :: "Tree \<Rightarrow> byte list \<Rightarrow> bool" where
  leaf: "serializes (Node nullptr nullptr symbol) [OPEN, symbol, CLOSE]"
| internal: "serializes l a \<Longrightarrow> serializes r b \<Longrightarrow>
     serializes (Node l r x) ([OPEN] @ a @ [filler] @ b @ [CLOSE])"

code_pred serializes .

text \<open>The bytes that \<open>_sequence\<close> appends for a tree.\<close>

fun bytes_of :: "Tree \<Rightarrow> byte list" where
  "bytes_of nullptr = []"
| "bytes_of (Node l r x) =
     (if l \<noteq> nullptr then [0x80] @ bytes_of l @ [x] @ bytes_of r @ [0x81]
      else [0x80, x, 0x81])"

text \<open>No node with a left child has a null right child: \<open>_sequence\<close> meets no null pointer.\<close>

fun no_null_child :: "Tree \<Rightarrow> bool" where
  "no_null_child nullptr = False"
| "no_null_child (Node l r x) = (l = nullptr \<or> (no_null_child l \<and> no_null_child r))"

text \<open>The bits of a byte from bit 7 down to bit 0, and the bits of a list of bytes.\<close>

definition bits_of_byte :: "byte \<Rightarrow> bool list" where
  "bits_of_byte b = map (\<lambda>j. bit b (7 - j)) [0..<8]"

definition bits_of :: "byte list \<Rightarrow> bool list" where
  "bits_of bs = concat (map bits_of_byte bs)"

text \<open>The mask \<open>p\<close> after \<open>k\<close> shifts: \<open>0x80 >> k\<close>.\<close>

definition mask_of :: "nat \<Rightarrow> byte" where
  "mask_of k = 2 ^ (7 - k)"

text \<open>The bits of \<open>cache\<close> that the mask has not reached yet are zero.\<close>

definition low_clear :: "nat \<Rightarrow> byte \<Rightarrow> bool" where
  "low_clear k cache = (\<forall>j<8. k \<le> j \<longrightarrow> \<not> bit cache (7 - j))"

text \<open>The stream of bits that a state of the encoder holds.\<close>

definition written :: "byte list \<Rightarrow> byte \<Rightarrow> nat \<Rightarrow> bool list" where
  "written result cache k = bits_of result @ take k (bits_of_byte cache)"

text \<open>The bits of the codes of a string, one code after the other.\<close>

definition code_bits :: "Code list \<Rightarrow> byte list \<Rightarrow> bool list" where
  "code_bits cd s = concat (map (\<lambda>i. cd ! char_index i) s)"

text \<open>The loop of \<open>decode_byte\<close> over a list of bits instead of the masks of a byte.\<close>

fun walk ::
  "Tree \<Rightarrow> nat \<Rightarrow> bool list \<Rightarrow> byte list \<times> nat \<times> Tree \<Rightarrow> error + (byte list \<times> nat \<times> Tree)" where
  "walk root l2 [] st = Inr st"
| "walk root l2 (b # bs) (v, cnt, t) =
     (case t of
        nullptr \<Rightarrow> Inl UndefinedBehaviour
      | Node l r x \<Rightarrow>
          (case (if b then r else l) of
             nullptr \<Rightarrow> Inl UndefinedBehaviour
           | Node l1 r1 x1 \<Rightarrow>
               if x1 \<noteq> EOF then
                 (if cnt + 1 = l2 then Inr (v @ [x1], cnt + 1, root)
                  else walk root l2 bs (v @ [x1], cnt + 1, root))
               else walk root l2 bs (v, cnt + 1, Node l1 r1 x1)))"

text \<open>A cursor of \<open>decode\<close> in a valid tree: a node with two valid children.\<close>

fun internal :: "Tree \<Rightarrow> bool" where
  "internal nullptr = False"
| "internal (Node l r x) = (valid_tree l \<and> valid_tree r)"

text \<open>The nodes of nonzero weight of a heap, by weight: what is left for the merging loop.\<close>

definition nonzero_sorted :: "Heap \<Rightarrow> Heap" where
  "nonzero_sorted heap = sort_key weight (filter (\<lambda>x. weight x \<noteq> 0) heap)"

text \<open>The symbols at the leaves of a tree, in the order \<open>_generate_code\<close> visits them.\<close>

fun leaves :: "Tree \<Rightarrow> byte list" where
  "leaves nullptr = []"
| "leaves (Node l r x) = (if l = nullptr \<and> r = nullptr then [x] else leaves r @ leaves l)"

text \<open>The number of edges on the longest path from the root to a leaf.\<close>

fun height :: "Tree \<Rightarrow> nat" where
  "height nullptr = 0"
| "height (Node l r x) =
     (if l = nullptr \<and> r = nullptr then 0 else 1 + max (height l) (height r))"

text \<open>The symbols at the leaves of all trees of a heap.\<close>

definition heap_leaves :: "Heap \<Rightarrow> byte multiset" where
  "heap_leaves heap = (\<Sum>n\<in>#mset heap. mset (leaves (new_Node n)))"

text \<open>The heap of 128 leaves, one for each symbol, with the weights \<open>f\<close>.\<close>

definition leaf_heap :: "(nat \<Rightarrow> size_t) \<Rightarrow> Heap" where
  "leaf_heap f = map (\<lambda>i. Weighted_Node nullptr nullptr (of_nat i) (f i)) [0..<128]"

text \<open>The symbols whose weight is not zero.\<close>

definition weighted_symbols :: "(nat \<Rightarrow> size_t) \<Rightarrow> nat list" where
  "weighted_symbols f = filter (\<lambda>i. f i \<noteq> 0) [0..<128]"

text \<open>
  The leaves of a tree with their paths from the root (right is \<open>True\<close>, left is
  \<open>False\<close>), in the order \<open>_generate_code\<close> visits them.
\<close>

fun leaf_paths :: "Tree \<Rightarrow> (byte \<times> bool list) list" where
  "leaf_paths nullptr = []"
| "leaf_paths (Node l r x) =
     (if l = nullptr \<and> r = nullptr then [(x, [])]
      else map (\<lambda>(c, p). (c, True # p)) (leaf_paths r)
         @ map (\<lambda>(c, p). (c, False # p)) (leaf_paths l))"

text \<open>The weights that \<open>build_tree\<close> counts in a string.\<close>

definition string_weights :: "byte list \<Rightarrow> nat \<Rightarrow> size_t" where
  "string_weights s i = of_nat (count_list s (of_nat i))"




text \<open>
  The nodes that \<open>decode\<close> takes for leaves, with their paths: from a cursor, the first
  node on each path downwards whose value is not \<open>EOF\<close> (\<open>detected_leaves\<close>; the value of
  the cursor itself is not looked at), and the same for a node that the cursor moves to
  (\<open>detected_at\<close>).
\<close>

fun detected_at :: "Tree \<Rightarrow> (byte \<times> bool list) list"
  and detected_leaves :: "Tree \<Rightarrow> (byte \<times> bool list) list" where
  "detected_at nullptr = []"
| "detected_at (Node l r x) = (if x \<noteq> EOF then [(x, [])] else detected_leaves (Node l r x))"
| "detected_leaves nullptr = []"
| "detected_leaves (Node l r x) =
     map (\<lambda>(c, p). (c, True # p)) (detected_at r)
   @ map (\<lambda>(c, p). (c, False # p)) (detected_at l)"


text \<open>The weights 3 for the symbol \<open>a\<close> and 1 for the symbol \<open>b\<close>, and the tree they give.\<close>

definition counter_ab :: "size_t list" where
  "counter_ab = (replicate 128 0)[97 := 3, 98 := 1]"

definition tree_ab :: Tree where
  "tree_ab = Node (Node nullptr nullptr 0x62) (Node nullptr nullptr 0x61) EOF"

text \<open>The buffer \<open>buf\<close> holds the bytes \<open>xs\<close> from position \<open>p\<close> on.\<close>

definition holds_at :: "byte list \<Rightarrow> nat \<Rightarrow> byte list \<Rightarrow> bool" where
  "holds_at buf p xs = (p + length xs \<le> length buf \<and> take (length xs) (drop p buf) = xs)"

text \<open>
  Two cursors of \<open>decode\<close> in two trees that differ in the value of the root only: the
  same node, or the two roots.
\<close>

definition same_cursor :: "Tree \<Rightarrow> Tree \<Rightarrow> Tree \<Rightarrow> Tree \<Rightarrow> bool" where
  "same_cursor root root' t t' = (t = t' \<or> (t = root \<and> t' = root'))"

text \<open>Two results of the loops of \<open>decode\<close> that differ in the cursor at most.\<close>

definition same_result ::
  "Tree \<Rightarrow> Tree \<Rightarrow> error + (byte list \<times> nat \<times> Tree) \<Rightarrow> error + (byte list \<times> nat \<times> Tree) \<Rightarrow> bool" where
  "same_result root root' a b =
     (case a of
        Inl e \<Rightarrow> b = Inl e
      | Inr (v, cnt, t) \<Rightarrow> (\<exists>t'. b = Inr (v, cnt, t') \<and> same_cursor root root' t t'))"

text \<open>
  The streams of the tree with the leaf \<open>a\<close> on the left and, on the right, the node with
  the leaves \<open>b\<close> and \<open>c\<close>: with the filler byte \<open>0xFF\<close> of the inner node, and with \<open>0x41\<close>
  in its place.
\<close>

definition stream_abc :: "byte \<Rightarrow> byte list" where
  "stream_abc filler =
     [0x80, 0x80, 0x61, 0x81, 0xFF, 0x80, 0x80, 0x62, 0x81, filler, 0x80, 0x63, 0x81, 0x81, 0x81]"

text \<open>
  The weights 4 for the symbol \<open>a\<close>, 1 for \<open>b\<close> and 2 for \<open>c\<close>, and the tree they give:
  the codes are \<open>1\<close> for \<open>a\<close>, \<open>00\<close> for \<open>b\<close> and \<open>01\<close> for \<open>c\<close>.
\<close>

definition counter_abc :: "size_t list" where
  "counter_abc = (replicate 128 0)[97 := 4, 98 := 1, 99 := 2]"

definition tree_abc :: Tree where
  "tree_abc =
     Node (Node (Node nullptr nullptr 0x62) (Node nullptr nullptr 0x63) EOF)
       (Node nullptr nullptr 0x61) EOF"

section \<open>Lemmas\<close>

subsection \<open>Serialization\<close>

lemma valid_tree_no_null_child: "valid_tree t \<Longrightarrow> no_null_child t"
  by (induction t) (auto split: if_splits)

lemma sequence_helper_bytes_of:
  "no_null_child t \<Longrightarrow> sequence_helper v t = Inr (v @ bytes_of t)"
  by (induction t arbitrary: v) auto

lemma sequence_bytes_of: "no_null_child t \<Longrightarrow> sequence t = Inr (bytes_of t)"
  by (simp add: sequence_def sequence_helper_bytes_of)

lemma valid_tree_serializes: "valid_tree t \<Longrightarrow> serializes t (bytes_of t)"
proof (induction t)
  case nullptr
  then show ?case by simp
next
  case (Node l r x)
  show ?case
  proof (cases "l = nullptr")
    case True
    with Node.prems have "r = nullptr" by (auto split: if_splits)
    with True show ?thesis
      using serializes.leaf [of x] by (simp add: OPEN_def CLOSE_def)
  next
    case False
    with Node.prems have "valid_tree l" "valid_tree r" by (auto split: if_splits)
    with Node.IH have "serializes l (bytes_of l)" "serializes r (bytes_of r)" by simp_all
    from serializes.internal [OF this, of x x] False show ?thesis
      by (simp add: OPEN_def CLOSE_def)
  qed
qed

subsection \<open>The bits that the encoder writes\<close>

lemma length_bits_of_byte [simp]: "length (bits_of_byte b) = 8"
  by (simp add: bits_of_byte_def)

lemma length_bits_of [simp]: "length (bits_of bs) = 8 * length bs"
  by (induction bs) (simp_all add: bits_of_def)

lemma bits_of_append [simp]: "bits_of (xs @ ys) = bits_of xs @ bits_of ys"
  by (simp add: bits_of_def)

lemma bits_of_Nil [simp]: "bits_of [] = []"
  by (simp add: bits_of_def)

lemma bits_of_single [simp]: "bits_of [b] = bits_of_byte b"
  by (simp add: bits_of_def)

lemma bits_of_Cons: "bits_of (b # bs) = bits_of_byte b @ bits_of bs"
  by (simp add: bits_of_def)

lemma take_bits_of_byte: "k \<le> 8 \<Longrightarrow> take k (bits_of_byte b) = map (\<lambda>j. bit b (7 - j)) [0..<k]"
  by (simp add: bits_of_byte_def take_map)

lemma mask_of_0 [simp]: "mask_of 0 = 0x80"
  by (simp add: mask_of_def)

lemma mask_of_neq_0: "k < 8 \<Longrightarrow> mask_of k \<noteq> 0"
  by (simp add: mask_of_def)

lemma shift_mask_of: "k < 8 \<Longrightarrow> drop_bit 1 (mask_of k) = (if k = 7 then 0 else mask_of (Suc k))"
  by (auto simp: mask_of_def drop_bit_exp_eq possible_bit_word Suc_diff_Suc
      simp del: One_nat_def)

lemma shift_mask_of_Suc:
  "k < 8 \<Longrightarrow> drop_bit (Suc 0) (mask_of k) = (if k = 7 then 0 else mask_of (Suc k))"
  using shift_mask_of [of k] by simp

lemma mask_of_eq_0x80: "k < 8 \<Longrightarrow> mask_of k = 0x80 \<longleftrightarrow> k = 0"
proof
  assume "k < 8" "mask_of k = 0x80"
  then have "(2::byte) ^ (7 - k) = 2 ^ 7" by (simp add: mask_of_def)
  then have "bit ((2::byte) ^ (7 - k)) 7" by (simp add: bit_exp_iff possible_bit_word)
  then show "k = 0" by (simp add: bit_exp_iff)
qed simp

lemma bit_or_mask_of:
  "k < 8 \<Longrightarrow> j < 8 \<Longrightarrow> bit (cache OR mask_of k) (7 - j) \<longleftrightarrow> bit cache (7 - j) \<or> j = k"
  by (auto simp: mask_of_def bit_or_iff bit_exp_iff possible_bit_word)

lemma and_mask_of: "k < 8 \<Longrightarrow> (mask_of k AND i \<noteq> 0) = bit i (7 - k)"
  by (simp add: mask_of_def and.commute and_exp_eq_0_iff_not_bit)

lemma low_clear_0 [simp]: "low_clear k 0"
  by (simp add: low_clear_def)

lemma take_put_bit:
  assumes "k < 8" "low_clear k cache"
  shows "take (Suc k) (bits_of_byte (if b then cache OR mask_of k else cache))
         = take k (bits_of_byte cache) @ [b]"
proof -
  have "\<not> bit cache (7 - k)" using assms by (simp add: low_clear_def)
  moreover have "\<forall>j<k. bit (cache OR mask_of k) (7 - j) = bit cache (7 - j)"
    using assms(1) by (simp add: bit_or_mask_of)
  moreover have "bit (cache OR mask_of k) (7 - k)" using assms(1) by (simp add: bit_or_mask_of)
  ultimately show ?thesis
    using assms(1) by (simp add: take_bits_of_byte)
qed

lemma low_clear_put_bit:
  assumes "k < 8" "low_clear k cache"
  shows "low_clear (Suc k) (if b then cache OR mask_of k else cache)"
  using assms by (auto simp: low_clear_def bit_or_mask_of)

lemma encode_code_written:
  "k < 8 \<Longrightarrow> low_clear k cache \<Longrightarrow>
   \<exists>result' cache' k'. encode_code c (result, cache, mask_of k) = (result', cache', mask_of k')
      \<and> k' < 8 \<and> low_clear k' cache'
      \<and> written result' cache' k' = written result cache k @ c"
proof (induction c arbitrary: result cache k)
  case Nil
  then show ?case by auto
next
  case (Cons b c)
  let ?cache1 = "if b then cache OR mask_of k else cache"
  have tk: "take (Suc k) (bits_of_byte ?cache1) = take k (bits_of_byte cache) @ [b]"
    using Cons.prems by (rule take_put_bit)
  have lc: "low_clear (Suc k) ?cache1"
    using Cons.prems by (rule low_clear_put_bit)
  show ?case
  proof (cases "k = 7")
    case True
    have step: "encode_code (b # c) (result, cache, mask_of k)
        = encode_code c (result @ [?cache1], 0, mask_of 0)"
      using True by (simp add: shift_mask_of_Suc Let_def)
    from Cons.IH [of 0 0 "result @ [?cache1]"] obtain result' cache' k' where
      r: "encode_code c (result @ [?cache1], 0, mask_of 0) = (result', cache', mask_of k')"
        "k' < 8" "low_clear k' cache'"
        "written result' cache' k' = written (result @ [?cache1]) 0 0 @ c"
      by auto
    have "written (result @ [?cache1]) 0 0 = written result cache k @ [b]"
      using tk True by (simp add: written_def)
    with r step show ?thesis by auto
  next
    case False
    with Cons.prems have k: "Suc k < 8" by simp
    have step: "encode_code (b # c) (result, cache, mask_of k)
        = encode_code c (result, ?cache1, mask_of (Suc k))"
      using False Cons.prems k by (simp add: shift_mask_of_Suc Let_def mask_of_neq_0)
    from Cons.IH [OF k lc, of result] obtain result' cache' k' where
      r: "encode_code c (result, ?cache1, mask_of (Suc k)) = (result', cache', mask_of k')"
        "k' < 8" "low_clear k' cache'"
        "written result' cache' k' = written result ?cache1 (Suc k) @ c"
      by auto
    have "written result ?cache1 (Suc k) = written result cache k @ [b]"
      using tk by (simp add: written_def)
    with r step show ?thesis by auto
  qed
qed

lemma drop_bits_of_byte_low_clear:
  assumes "low_clear k cache" "k \<le> 8"
  shows "drop k (bits_of_byte cache) = replicate (8 - k) False"
proof (rule nth_equalityI)
  show "length (drop k (bits_of_byte cache)) = length (replicate (8 - k) False)" by simp
next
  fix i assume "i < length (drop k (bits_of_byte cache))"
  then have i: "k + i < 8" by simp
  then have "drop k (bits_of_byte cache) ! i = bit cache (7 - (k + i))"
    by (simp add: bits_of_byte_def del: upt_Suc)
  also have "\<dots> = False" using assms(1) i by (simp add: low_clear_def)
  finally show "drop k (bits_of_byte cache) ! i = replicate (8 - k) False ! i"
    using i by simp
qed

lemma count_extra_mask_of: "k < 8 \<Longrightarrow> count_extra (mask_of k) e = e + (8 - k)"
proof (induction "7 - k" arbitrary: k e)
  case 0
  then have "k = 7" by simp
  then show ?case by (simp add: count_extra.simps [of "mask_of 7"] shift_mask_of_Suc)
next
  case (Suc n)
  then have k: "k < 7" "n = 7 - Suc k" "Suc k < 8" by simp_all
  have "count_extra (mask_of k) e = count_extra (mask_of (Suc k)) (e + 1)"
    using k by (simp add: count_extra.simps [of "mask_of k"] shift_mask_of_Suc mask_of_neq_0)
  also have "\<dots> = e + 1 + (8 - Suc k)" using Suc.hyps(1) [OF k(2) k(3)] .
  finally show ?case using k by simp
qed

lemma code_bits_Nil [simp]: "code_bits cd [] = []"
  by (simp add: code_bits_def)

lemma code_bits_Cons [simp]: "code_bits cd (i # s) = cd ! char_index i @ code_bits cd s"
  by (simp add: code_bits_def)

lemma length_code_bits:
  "length (code_bits cd s) = sum_list (map (\<lambda>i. length (cd ! char_index i)) s)"
  by (induction s) simp_all

lemma encode_string_written:
  "\<forall>i\<in>set s. char_index i < length cd \<Longrightarrow> k < 8 \<Longrightarrow> low_clear k cache \<Longrightarrow>
   \<exists>result' cache' k'. encode_string cd s (result, cache, mask_of k) = Inr (result', cache', mask_of k')
      \<and> k' < 8 \<and> low_clear k' cache'
      \<and> written result' cache' k' = written result cache k @ code_bits cd s"
proof (induction s arbitrary: result cache k)
  case Nil
  then show ?case by auto
next
  case (Cons i s)
  from encode_code_written [OF Cons.prems(2,3), of "cd ! char_index i" result]
  obtain result1 cache1 k1 where
    r1: "encode_code (cd ! char_index i) (result, cache, mask_of k) = (result1, cache1, mask_of k1)"
      "k1 < 8" "low_clear k1 cache1"
      "written result1 cache1 k1 = written result cache k @ cd ! char_index i"
    by blast
  from Cons.prems(1) have "\<forall>i\<in>set s. char_index i < length cd" by simp
  from Cons.IH [OF this r1(2,3), of result1] obtain result' cache' k' where
    r2: "encode_string cd s (result1, cache1, mask_of k1) = Inr (result', cache', mask_of k')"
      "k' < 8" "low_clear k' cache'"
      "written result' cache' k' = written result1 cache1 k1 @ code_bits cd s"
    by blast
  from Cons.prems(1) r1 r2 show ?case by auto
qed

lemma encode_string_out_of_range:
  "\<not> (\<forall>i\<in>set s. char_index i < length cd) \<Longrightarrow> encode_string cd s st = Inl UndefinedBehaviour"
  by (induction s arbitrary: st) auto

text \<open>What \<open>encode\<close> returns: the number of code bits, and the code bits padded with zeros
  to whole bytes.\<close>

lemma encode_result:
  assumes "\<forall>i\<in>set s. char_index i < length (code h)"
  shows "\<exists>bytes. encode h s = Inr (length (code_bits (code h) s), bytes)
      \<and> length bytes = (length (code_bits (code h) s) + 7) div 8
      \<and> bits_of bytes = code_bits (code h) s
           @ replicate (8 * length bytes - length (code_bits (code h) s)) False"
proof -
  let ?B = "code_bits (code h) s"
  from assms encode_string_written [where cd = "code h" and s = s and k = 0 and cache = 0
      and result = "[]"]
  obtain result cache k where
    r: "encode_string (code h) s ([], 0, 0x80) = Inr (result, cache, mask_of k)"
      "k < 8" "low_clear k cache" "written result cache k = ?B"
    by (auto simp: written_def)
  from r(4) have len: "length ?B = 8 * length result + k"
    using r(2) by (metis length_append length_bits_of length_take length_bits_of_byte
        min.absorb4 written_def)
  show ?thesis
  proof (cases "k = 0")
    case True
    with r have "encode h s = Inr (length result * 8, result)"
      by (simp add: encode_def)
    moreover from r(4) True have "bits_of result = ?B" by (simp add: written_def)
    ultimately show ?thesis using len True by auto
  next
    case False
    with r(2) have ne: "mask_of k \<noteq> 0x80" by (simp add: mask_of_eq_0x80)
    have "encode h s = Inr (length (result @ [cache]) * 8 - count_extra (mask_of k) 0, result @ [cache])"
      using r(1) ne by (simp add: encode_def)
    moreover have "length (result @ [cache]) * 8 - count_extra (mask_of k) 0 = length ?B"
      using r(2) len by (simp add: count_extra_mask_of)
    moreover have "bits_of (result @ [cache]) = ?B @ replicate (8 - k) False"
    proof -
      have "bits_of_byte cache = take k (bits_of_byte cache) @ drop k (bits_of_byte cache)"
        by simp
      also have "drop k (bits_of_byte cache) = replicate (8 - k) False"
        using r(2,3) by (simp add: drop_bits_of_byte_low_clear)
      finally have "bits_of result @ bits_of_byte cache
          = (bits_of result @ take k (bits_of_byte cache)) @ replicate (8 - k) False"
        by simp
      also have "bits_of result @ take k (bits_of_byte cache) = ?B"
        using r(4) by (simp add: written_def)
      finally show ?thesis by simp
    qed
    moreover have "(length ?B + 7) div 8 = length (result @ [cache])"
      using len r(2) False by simp
    moreover have "8 * length (result @ [cache]) - length ?B = 8 - k"
      using len r(2) by simp
    ultimately show ?thesis by auto
  qed
qed

subsection \<open>The bits that the decoder reads\<close>

lemma decode_byte_0: "decode_byte root l2 i 0 st = Inr st"
  by (cases st) (simp add: decode_byte.simps)

lemma drop_bits_of_byte_Cons:
  "k < 8 \<Longrightarrow> drop k (bits_of_byte i) = bit i (7 - k) # drop (Suc k) (bits_of_byte i)"
  by (simp add: bits_of_byte_def Cons_nth_drop_Suc [symmetric] del: upt_Suc)

lemma decode_byte_walk:
  "k < 8 \<Longrightarrow> decode_byte root l2 i (mask_of k) st = walk root l2 (drop k (bits_of_byte i)) st"
proof (induction "7 - k" arbitrary: k st)
  case 0
  then have k: "k = 7" by simp
  obtain v cnt t where st: "st = (v, cnt, t)" by (cases st)
  show ?case
    unfolding st k
    by (simp add: decode_byte.simps [of root l2 i "mask_of 7"] drop_bits_of_byte_Cons [of 7]
        mask_of_neq_0 and_mask_of shift_mask_of_Suc decode_byte_0
        split: Tree.splits)
next
  case (Suc n)
  then have k: "k < 7" "n = 7 - Suc k" "Suc k < 8" by simp_all
  obtain v cnt t where st: "st = (v, cnt, t)" by (cases st)
  note IH = Suc.hyps(1) [OF k(2) k(3)]
  show ?case
    unfolding st using k(1)
    by (simp add: decode_byte.simps [of root l2 i "mask_of k"] drop_bits_of_byte_Cons [of k]
        mask_of_neq_0 and_mask_of shift_mask_of_Suc IH
        split: Tree.splits)
qed

lemma decode_byte_0x80: "decode_byte root l2 i 0x80 st = walk root l2 (bits_of_byte i) st"
  using decode_byte_walk [of 0 root l2 i st] by simp

lemma walk_append:
  "cnt + length xs < l2 \<Longrightarrow>
   walk root l2 (xs @ ys) (v, cnt, t) =
     (case walk root l2 xs (v, cnt, t) of Inl e \<Rightarrow> Inl e | Inr st \<Rightarrow> walk root l2 ys st)"
  by (induction xs arbitrary: v cnt t) (auto split: Tree.splits)

lemma walk_count:
  "cnt + length xs < l2 \<Longrightarrow> walk root l2 xs (v, cnt, t) = Inr (v', cnt', t') \<Longrightarrow>
   cnt' = cnt + length xs"
proof (induction xs arbitrary: v cnt t)
  case Nil
  then show ?case by simp
next
  case (Cons b xs)
  from Cons.prems(1) have "Suc cnt + length xs < l2" "Suc cnt \<noteq> l2" by simp_all
  with Cons.prems(2) Cons.IH [of "Suc cnt"] show ?case
    by (auto split: Tree.splits if_splits)
qed

lemma walk_bit_length:
  "cnt + length xs < l2 \<Longrightarrow> cnt + length xs < l2' \<Longrightarrow>
   walk root l2 xs (v, cnt, t) = walk root l2' xs (v, cnt, t)"
proof (induction xs arbitrary: v cnt t)
  case Nil
  then show ?case by simp
next
  case (Cons b xs)
  then have "Suc cnt + length xs < l2" "Suc cnt \<noteq> l2" "Suc cnt + length xs < l2'" "Suc cnt \<noteq> l2'"
    by simp_all
  with Cons.IH [of "Suc cnt"] show ?case
    by (auto split: Tree.splits)
qed

lemma decode_bytes_walk:
  "cnt + 8 * (length bytes - 1) < l2 \<Longrightarrow>
   decode_bytes root l2 bytes (v, cnt, t) = walk root l2 (bits_of bytes) (v, cnt, t)"
proof (induction bytes arbitrary: v cnt t)
  case Nil
  then show ?case by simp
next
  case (Cons i bytes)
  show ?case
  proof (cases "bytes = []")
    case True
    then show ?thesis
      by (simp add: decode_byte_0x80 split: sum.splits)
  next
    case False
    then have len: "length bytes = Suc (length bytes - 1)" by (cases bytes) simp_all
    with Cons.prems have lt: "cnt + length (bits_of_byte i) < l2" by simp
    have "walk root l2 (bits_of (i # bytes)) (v, cnt, t)
        = (case walk root l2 (bits_of_byte i) (v, cnt, t) of
             Inl e \<Rightarrow> Inl e | Inr st \<Rightarrow> walk root l2 (bits_of bytes) st)"
      unfolding bits_of_Cons by (rule walk_append [OF lt])
    also have "\<dots> = (case walk root l2 (bits_of_byte i) (v, cnt, t) of
             Inl e \<Rightarrow> Inl e | Inr st \<Rightarrow> decode_bytes root l2 bytes st)"
    proof (cases "walk root l2 (bits_of_byte i) (v, cnt, t)")
      case (Inl e)
      then show ?thesis by simp
    next
      case (Inr st)
      obtain v' cnt' t' where st: "st = (v', cnt', t')" by (cases st)
      from walk_count [OF lt Inr [unfolded st]] have "cnt' = cnt + 8" by simp
      with Cons.prems len have "cnt' + 8 * (length bytes - 1) < l2" by simp
      from Cons.IH [OF this] Inr st show ?thesis by simp
    qed
    finally show ?thesis by (simp add: decode_byte_0x80)
  qed
qed

lemma valid_tree_not_nullptr: "valid_tree t \<Longrightarrow> t \<noteq> nullptr"
  by auto

lemma valid_tree_cases:
  assumes "valid_tree t"
  obtains (leaf) x where "t = Node nullptr nullptr x" "x < 0x80" "x \<noteq> EOF"
  | (node) l r where "t = Node l r EOF" "valid_tree l" "valid_tree r"
proof (cases t)
  case nullptr
  with assms show ?thesis by simp
next
  case (Node l r x)
  show ?thesis
  proof (cases "l = nullptr \<and> r = nullptr")
    case True
    with assms Node have "x < 0x80" by simp
    then have "x \<noteq> EOF" by (auto simp: EOF_def)
    with True Node \<open>x < 0x80\<close> leaf show ?thesis by simp
  next
    case False
    with assms Node node show ?thesis by (simp split: if_splits)
  qed
qed

lemma walk_total:
  "internal root \<Longrightarrow> internal t \<Longrightarrow>
   \<exists>v' cnt' t'. walk root l2 xs (v, cnt, t) = Inr (v', cnt', t') \<and> internal t'"
proof (induction xs arbitrary: v cnt t)
  case Nil
  then show ?case by simp
next
  case (Cons b xs)
  from Cons.prems(2) obtain l r x where t: "t = Node l r x" "valid_tree l" "valid_tree r"
    by (cases t) auto
  define c where "c = (if b then r else l)"
  with t have "valid_tree c" by simp
  then show ?case
  proof (cases rule: valid_tree_cases)
    case (leaf x1)
    with Cons.IH [OF Cons.prems(1) Cons.prems(1)] Cons.prems(1) t c_def show ?thesis
      by (cases "b") (auto)
  next
    case (node l1 r1)
    then have "internal c" by simp
    from Cons.IH [OF Cons.prems(1) this] node t c_def show ?thesis
      by (cases b) auto
  qed
qed

lemma decode_bytes_total:
  "internal root \<Longrightarrow> internal t \<Longrightarrow>
   \<exists>v' cnt' t'. decode_bytes root l2 bytes (v, cnt, t) = Inr (v', cnt', t') \<and> internal t'"
proof (induction bytes arbitrary: v cnt t)
  case Nil
  then show ?case by simp
next
  case (Cons i bytes)
  from walk_total [OF Cons.prems, of l2 "bits_of_byte i" v cnt] obtain v1 cnt1 t1 where
    "walk root l2 (bits_of_byte i) (v, cnt, t) = Inr (v1, cnt1, t1)" "internal t1"
    by blast
  with Cons.IH [OF Cons.prems(1) this(2), of v1 cnt1] show ?case
    by (simp add: decode_byte_0x80)
qed

subsection \<open>The loops of build_tree on the heap\<close>

declare upt_rec_numeral [simp del]

lemma pop_back_pop_heap [simp]: "pop_back (pop_heap (x # xs)) = xs"
  by (simp add: pop_back_def pop_heap_def)

lemma drop_zero_weights_Nil [simp]: "drop_zero_weights [] = Inl UndefinedBehaviour"
  by (simp add: drop_zero_weights.simps)

lemma drop_zero_weights_Cons [simp]:
  "drop_zero_weights (x # xs) = (if weight x = 0 then drop_zero_weights xs else Inr (x # xs))"
  by (simp add: drop_zero_weights.simps [of "x # xs"])

lemma merge_nodes_Nil [simp]: "merge_nodes [] = []"
  by (simp add: merge_nodes.simps)

lemma merge_nodes_single [simp]: "merge_nodes [x] = [x]"
  by (simp add: merge_nodes.simps)

lemma merge_nodes_Cons2 [simp]:
  "merge_nodes (x # y # heap) =
     merge_nodes (insort_key weight
       (Weighted_Node (new_Node x) (new_Node y) EOF (weight x + weight y)) heap)"
proof -
  have "pop_heap (x # y # heap) = y # heap @ [x]" by (simp add: pop_heap_def)
  moreover have "pop_heap (pop_back (y # heap @ [x])) = heap @ [y]"
    by (simp add: pop_heap_def pop_back_def butlast_append)
  moreover have "push_heap (butlast (heap @ [y]) @ [n]) = insort_key weight n heap" for n
    by (simp add: push_heap_def)
  ultimately show ?thesis
    by (simp add: merge_nodes.simps [of "x # y # heap"] Let_def)
qed

lemma drop_zero_weights_sorted:
  "sorted (map weight heap) \<Longrightarrow>
   drop_zero_weights heap =
     (if \<forall>x\<in>set heap. weight x = 0 then Inl UndefinedBehaviour
      else Inr (filter (\<lambda>x. weight x \<noteq> 0) heap))"
proof (induction heap)
  case Nil
  then show ?case by simp
next
  case (Cons x heap)
  show ?case
  proof (cases "weight x = 0")
    case True
    with Cons show ?thesis by simp
  next
    case False
    from Cons.prems have "\<forall>y\<in>set heap. weight x \<le> weight y" by simp
    with False have "\<forall>y\<in>set heap. weight y \<noteq> 0" by (auto simp: word_le_0_iff)
    then have "filter (\<lambda>x. weight x \<noteq> 0) heap = heap" by (simp add: filter_id_conv)
    with False show ?thesis by simp
  qed
qed

lemma drop_zero_weights_make_heap:
  "drop_zero_weights (make_heap heap) =
     (if \<forall>x\<in>set heap. weight x = 0 then Inl UndefinedBehaviour
      else Inr (nonzero_sorted heap))"
  by (simp add: make_heap_def drop_zero_weights_sorted nonzero_sorted_def filter_sort)

lemma nonzero_sorted_eq_Nil: "nonzero_sorted heap = [] \<longleftrightarrow> (\<forall>x\<in>set heap. weight x = 0)"
proof -
  have "nonzero_sorted heap = [] \<longleftrightarrow> set (nonzero_sorted heap) = {}" by simp
  also have "\<dots> \<longleftrightarrow> (\<forall>x\<in>set heap. weight x = 0)"
    by (auto simp: nonzero_sorted_def)
  finally show ?thesis .
qed

lemma length_nonzero_sorted:
  "length (nonzero_sorted heap) = length (filter (\<lambda>x. weight x \<noteq> 0) heap)"
  by (simp add: nonzero_sorted_def)

lemma merge_nodes_length: "heap \<noteq> [] \<Longrightarrow> length (merge_nodes heap) = 1"
proof (induction heap rule: merge_nodes.induct)
  case (1 heap)
  show ?case
  proof (cases heap)
    case Nil
    with "1.prems" show ?thesis by simp
  next
    case (Cons x heap1)
    show ?thesis
    proof (cases heap1)
      case Nil
      with Cons show ?thesis by simp
    next
      case (Cons y heap2)
      let ?n = "Weighted_Node (new_Node x) (new_Node y) EOF (weight x + weight y)"
      have "pop_heap heap = y # heap2 @ [x]" using \<open>heap = x # heap1\<close> Cons by (simp add: pop_heap_def)
      moreover have "pop_heap (pop_back (y # heap2 @ [x])) = heap2 @ [y]"
        by (simp add: pop_heap_def pop_back_def butlast_append)
      moreover have "push_heap (butlast (heap2 @ [y]) @ [?n]) = insort_key weight ?n heap2"
        by (simp add: push_heap_def)
      ultimately have "length (merge_nodes (insort_key weight ?n heap2)) = 1"
        using "1.IH" [OF _ refl refl refl refl refl refl refl] \<open>heap = x # heap1\<close> Cons
        by (simp add: Let_def)
      with \<open>heap = x # heap1\<close> Cons show ?thesis by simp
    qed
  qed
qed

lemma build_tree_Heap_eq:
  "build_tree_Heap heap =
     (if \<forall>x\<in>set heap. weight x = 0 then Inl UndefinedBehaviour
      else if length (nonzero_sorted heap) = 1 then Inl SingleSymbolError
      else Inr (new_Node (hd (merge_nodes (nonzero_sorted heap)))))"
proof (cases "\<forall>x\<in>set heap. weight x = 0")
  case True
  then show ?thesis by (simp add: build_tree_Heap_def drop_zero_weights_make_heap)
next
  case False
  then have ne: "nonzero_sorted heap \<noteq> []" by (simp add: nonzero_sorted_eq_Nil)
  from merge_nodes_length [OF this] obtain root where "merge_nodes (nonzero_sorted heap) = [root]"
    by (cases "merge_nodes (nonzero_sorted heap)") auto
  with False ne show ?thesis
    by (simp add: build_tree_Heap_def drop_zero_weights_make_heap)
qed

subsection \<open>Leaves and height of the merged tree\<close>

lemma heap_leaves_Nil [simp]: "heap_leaves [] = {#}"
  by (simp add: heap_leaves_def)

lemma heap_leaves_Cons [simp]:
  "heap_leaves (n # heap) = mset (leaves (new_Node n)) + heap_leaves heap"
  by (simp add: heap_leaves_def)

lemma heap_leaves_insort [simp]:
  "heap_leaves (insort_key weight n heap) = mset (leaves (new_Node n)) + heap_leaves heap"
  by (simp add: heap_leaves_def)

lemma heap_leaves_mset: "mset heap1 = mset heap2 \<Longrightarrow> heap_leaves heap1 = heap_leaves heap2"
  by (simp add: heap_leaves_def)

lemma valid_tree_leaves_ne: "valid_tree t \<Longrightarrow> leaves t \<noteq> []"
  by (induction t) (auto split: if_splits)

lemma merge_nodes_invariant:
  "heap \<noteq> [] \<Longrightarrow> \<forall>n\<in>set heap. valid_tree (new_Node n) \<Longrightarrow>
   \<exists>root. merge_nodes heap = [root] \<and> valid_tree (new_Node root)
      \<and> mset (leaves (new_Node root)) = heap_leaves heap"
proof (induction "length heap" arbitrary: heap rule: less_induct)
  case less
  show ?case
  proof (cases heap)
    case Nil
    with less.prems show ?thesis by simp
  next
    case (Cons x heap1)
    show ?thesis
    proof (cases heap1)
      case Nil
      with Cons less.prems show ?thesis by simp
    next
      case (Cons y heap2)
      let ?n = "Weighted_Node (new_Node x) (new_Node y) EOF (weight x + weight y)"
      let ?heap = "insort_key weight ?n heap2"
      from less.prems \<open>heap = x # heap1\<close> Cons
      have vx: "valid_tree (new_Node x)" and vy: "valid_tree (new_Node y)"
        and v2: "\<forall>n\<in>set heap2. valid_tree (new_Node n)"
        by simp_all
      from vx vy have vn: "valid_tree (new_Node ?n)"
        by (auto simp: valid_tree_not_nullptr)
      have ln: "mset (leaves (new_Node ?n)) = mset (leaves (new_Node x)) + mset (leaves (new_Node y))"
        using vx vy by (auto simp: valid_tree_not_nullptr)
      have "length ?heap < length heap" using \<open>heap = x # heap1\<close> Cons by simp
      moreover have "?heap \<noteq> []" by (metis length_insort Zero_not_Suc list.size(3))
      moreover have "\<forall>n\<in>set ?heap. valid_tree (new_Node n)"
        using vn v2 by (auto simp: set_insort_key)
      ultimately obtain root where
        "merge_nodes ?heap = [root]" "valid_tree (new_Node root)"
        "mset (leaves (new_Node root)) = heap_leaves ?heap"
        using less.hyps by blast
      with ln \<open>heap = x # heap1\<close> Cons show ?thesis by simp
    qed
  qed
qed

lemma valid_tree_height: "valid_tree t \<Longrightarrow> height t < length (leaves t)"
proof (induction t)
  case nullptr
  then show ?case by simp
next
  case (Node l r x)
  show ?case
  proof (cases "l = nullptr \<and> r = nullptr")
    case True
    then show ?thesis by simp
  next
    case False
    with Node.prems have "valid_tree l" "valid_tree r" by (auto split: if_splits)
    with Node.IH have "height l < length (leaves l)" "height r < length (leaves r)" by simp_all
    with False show ?thesis by auto
  qed
qed

lemma valid_tree_internal: "valid_tree t \<Longrightarrow> 2 \<le> length (leaves t) \<Longrightarrow> internal t"
  by (cases t) (auto split: if_splits)

lemma valid_tree_leaves_less: "valid_tree t \<Longrightarrow> \<forall>c\<in>set (leaves t). c < 0x80"
  by (induction t) (auto split: if_splits)

lemma bytes_less_128_length:
  assumes "distinct (xs :: byte list)" "\<forall>c\<in>set xs. c < 0x80"
  shows "length xs \<le> 128"
proof -
  have "set xs \<subseteq> of_nat ` {..<128::nat}"
  proof
    fix c assume "c \<in> set xs"
    with assms(2) have "c < 0x80" by simp
    then have "unat c < 128" by (simp add: word_less_nat_alt)
    moreover have "c = of_nat (unat c)" by simp
    ultimately show "c \<in> of_nat ` {..<128::nat}" by blast
  qed
  then have "card (set xs) \<le> card (of_nat ` {..<128::nat} :: byte set)"
    by (intro card_mono) simp_all
  also have "\<dots> \<le> card {..<128::nat}" by (rule card_image_le) simp
  finally show ?thesis using assms(1) by (simp add: distinct_card)
qed

subsection \<open>The heap of the 128 symbols\<close>

lemma length_leaf_heap [simp]: "length (leaf_heap f) = 128"
  by (simp add: leaf_heap_def)

lemma nth_leaf_heap:
  "i < 128 \<Longrightarrow> leaf_heap f ! i = Weighted_Node nullptr nullptr (of_nat i) (f i)"
  by (simp add: leaf_heap_def del: upt_Suc)

lemma leaf_heap_eqI:
  assumes "length heap = 128"
    and "\<And>i. i < 128 \<Longrightarrow> heap ! i = Weighted_Node nullptr nullptr (of_nat i) (f i)"
  shows "heap = leaf_heap f"
  by (rule nth_equalityI) (simp_all add: assms nth_leaf_heap)

lemma set_value_set_value [simp]: "set_value a (set_value b n) = set_value a n"
  by (cases n) simp

lemma set_weight_set_value_twice [simp]:
  "set_weight a (set_value b (set_weight c (set_value d n))) = set_weight a (set_value b n)"
  by (cases n) simp

lemma set_values_nth:
  "\<forall>i\<in>set is. i < length heap \<Longrightarrow>
   \<exists>heap'. set_values is heap = Inr heap' \<and> length heap' = length heap
     \<and> (\<forall>j<length heap. heap' ! j =
           (if j \<in> set is then set_value (of_nat j) (heap ! j) else heap ! j))"
proof (induction "is" arbitrary: heap)
  case Nil
  then show ?case by simp
next
  case (Cons i "is")
  let ?heap1 = "heap[i := set_value (of_nat i) (heap ! i)]"
  from Cons.prems have "\<forall>i\<in>set is. i < length ?heap1" by simp
  from Cons.IH [OF this] obtain heap' where
    h: "set_values is ?heap1 = Inr heap'" "length heap' = length heap"
      "\<forall>j<length heap. heap' ! j =
           (if j \<in> set is then set_value (of_nat j) (?heap1 ! j) else ?heap1 ! j)"
    by auto
  have "heap' ! j = (if j \<in> set (i # is) then set_value (of_nat j) (heap ! j) else heap ! j)"
    if "j < length heap" for j
    using h(3) that by (cases "j = i") auto
  with h(1,2) Cons.prems show ?case by simp
qed

lemma set_counts_nth:
  "\<forall>i\<in>set is. i < length heap \<and> i < length counter \<Longrightarrow>
   \<exists>heap'. set_counts is counter heap = Inr heap' \<and> length heap' = length heap
     \<and> (\<forall>j<length heap. heap' ! j =
           (if j \<in> set is then set_weight (counter ! j) (set_value (of_nat j) (heap ! j))
            else heap ! j))"
proof (induction "is" arbitrary: heap)
  case Nil
  then show ?case by simp
next
  case (Cons i "is")
  let ?heap1 = "heap[i := set_weight (counter ! i) (set_value (of_nat i) (heap ! i))]"
  from Cons.prems have "\<forall>i\<in>set is. i < length ?heap1 \<and> i < length counter" by simp
  from Cons.IH [OF this] obtain heap' where
    h: "set_counts is counter ?heap1 = Inr heap'" "length heap' = length heap"
      "\<forall>j<length heap. heap' ! j =
           (if j \<in> set is then set_weight (counter ! j) (set_value (of_nat j) (?heap1 ! j))
            else ?heap1 ! j)"
    by auto
  have "heap' ! j = (if j \<in> set (i # is)
          then set_weight (counter ! j) (set_value (of_nat j) (heap ! j)) else heap ! j)"
    if "j < length heap" for j
    using h(3) that by (cases "j = i") auto
  with h(1,2) Cons.prems show ?case by simp
qed

lemma set_values_Heap_128: "set_values [0..<128] Heap_128 = Inr (leaf_heap (\<lambda>i. 0))"
proof -
  have "\<forall>i\<in>set [0..<128]. i < length Heap_128" by (simp add: Heap_128_def)
  from set_values_nth [OF this] obtain heap' where
    h: "set_values [0..<128] Heap_128 = Inr heap'" "length heap' = length Heap_128"
      "\<forall>j<length Heap_128. heap' ! j =
           (if j \<in> set [0..<128] then set_value (of_nat j) (Heap_128 ! j) else Heap_128 ! j)"
    by blast
  have "heap' = leaf_heap (\<lambda>i. 0)"
  proof (rule leaf_heap_eqI)
    show "length heap' = 128" using h(2) by (simp add: Heap_128_def)
  next
    fix i :: nat assume "i < 128"
    with h(3) show "heap' ! i = Weighted_Node nullptr nullptr (of_nat i) 0"
      by (simp add: Heap_128_def)
  qed
  with h(1) show ?thesis by simp
qed

lemma set_counts_Heap_128:
  assumes "length counter = 128"
  shows "set_counts [0..<length counter] counter Heap_128 = Inr (leaf_heap (\<lambda>i. counter ! i))"
proof -
  have "\<forall>i\<in>set [0..<128]. i < length Heap_128 \<and> i < length counter"
    using assms by (simp add: Heap_128_def)
  from set_counts_nth [OF this] obtain heap' where
    h: "set_counts [0..<128] counter Heap_128 = Inr heap'" "length heap' = length Heap_128"
      "\<forall>j<length Heap_128. heap' ! j =
           (if j \<in> set [0..<128]
            then set_weight (counter ! j) (set_value (of_nat j) (Heap_128 ! j))
            else Heap_128 ! j)"
    by blast
  have "heap' = leaf_heap (\<lambda>i. counter ! i)"
  proof (rule leaf_heap_eqI)
    show "length heap' = 128" using h(2) by (simp add: Heap_128_def)
  next
    fix i :: nat assume "i < 128"
    with h(3) show "heap' ! i = Weighted_Node nullptr nullptr (of_nat i) (counter ! i)"
      by (simp add: Heap_128_def)
  qed
  with h(1) assms show ?thesis by simp
qed

lemma char_index_less: "c < 0x80 \<Longrightarrow> char_index c = unat c \<and> unat c < 128"
  by (simp add: char_index_def word_less_nat_alt)

lemma char_index_ge: "\<not> c < 0x80 \<Longrightarrow> 128 \<le> char_index c"
  by (simp add: char_index_def)

lemma char_index_less_iff: "char_index c < 128 \<longleftrightarrow> c < 0x80"
proof (cases "c < 0x80")
  case True
  with char_index_less [of c] show ?thesis by simp
next
  case False
  with char_index_ge [of c] show ?thesis by simp
qed

lemma unat_of_nat_byte: "i < 128 \<Longrightarrow> unat (of_nat i :: byte) = i"
  by (simp add: unat_of_nat)

lemma of_nat_eq_byte_iff: "i < 128 \<Longrightarrow> (of_nat i = (c :: byte)) = (i = unat c)"
proof
  assume "i < 128" "of_nat i = c"
  then show "i = unat c" using unat_of_nat_byte [of i] by simp
next
  assume "i = unat c"
  then show "of_nat i = c" by simp
qed

lemma of_nat_less_0x80: "i < 128 \<Longrightarrow> (of_nat i :: byte) < 0x80"
  by (simp add: word_less_nat_alt unat_of_nat_byte)

lemma leaf_heap_cong: "(\<And>i. i < 128 \<Longrightarrow> f i = g i) \<Longrightarrow> leaf_heap f = leaf_heap g"
  by (simp add: leaf_heap_def del: upt_Suc)

lemma count_chars_leaf_heap:
  "\<forall>c\<in>set s. c < 0x80 \<Longrightarrow>
   count_chars s (leaf_heap f) = Inr (leaf_heap (\<lambda>i. f i + of_nat (count_list s (of_nat i))))"
proof (induction s arbitrary: f)
  case Nil
  then show ?case by simp
next
  case (Cons c s)
  from Cons.prems have c: "char_index c = unat c" "unat c < 128"
    using char_index_less [of c] by simp_all
  define g where "g = f(unat c := f (unat c) + 1)"
  have upd: "(leaf_heap f)[unat c := set_weight (weight (leaf_heap f ! unat c) + 1)
      (leaf_heap f ! unat c)] = leaf_heap g"
  proof (rule leaf_heap_eqI)
    fix i :: nat assume "i < 128"
    then show "(leaf_heap f)[unat c := set_weight (weight (leaf_heap f ! unat c) + 1)
      (leaf_heap f ! unat c)] ! i = Weighted_Node nullptr nullptr (of_nat i) (g i)"
      using c(2) by (cases "i = unat c") (simp_all add: nth_leaf_heap g_def)
  qed simp
  from Cons.prems have "\<forall>c\<in>set s. c < 0x80" by simp
  have "count_chars (c # s) (leaf_heap f) = count_chars s (leaf_heap g)"
    using c upd by simp
  also from Cons.IH [OF \<open>\<forall>c\<in>set s. c < 0x80\<close>, of g]
  have "count_chars s (leaf_heap g)
      = Inr (leaf_heap (\<lambda>i. g i + of_nat (count_list s (of_nat i))))" .
  also have "leaf_heap (\<lambda>i. g i + of_nat (count_list s (of_nat i)))
      = leaf_heap (\<lambda>i. f i + of_nat (count_list (c # s) (of_nat i)))"
  proof (rule leaf_heap_cong)
    fix i :: nat assume "i < 128"
    then have "(c = of_nat i) = (i = unat c)"
      using of_nat_eq_byte_iff [of i c] by auto
    then show "g i + of_nat (count_list s (of_nat i))
        = f i + of_nat (count_list (c # s) (of_nat i))"
      by (simp add: g_def)
  qed
  finally show ?case .
qed

lemma filter_leaf_heap:
  "filter (\<lambda>x. weight x \<noteq> 0) (leaf_heap f)
     = map (\<lambda>i. Weighted_Node nullptr nullptr (of_nat i) (f i)) (weighted_symbols f)"
  by (simp add: leaf_heap_def weighted_symbols_def filter_map comp_def del: upt_Suc)

lemma heap_leaves_leaf_nodes:
  "heap_leaves (map (\<lambda>i. Weighted_Node nullptr nullptr (of_nat i) (f i)) is) = mset (map of_nat is)"
  by (induction "is") simp_all

lemma all_weights_zero_leaf_heap:
  "(\<forall>x\<in>set (leaf_heap f). weight x = 0) \<longleftrightarrow> weighted_symbols f = []"
  by (auto simp: leaf_heap_def weighted_symbols_def filter_empty_conv simp del: upt_Suc)

lemma set_weighted_symbols: "set (weighted_symbols f) = {i. i < 128 \<and> f i \<noteq> 0}"
  by (auto simp: weighted_symbols_def)

lemma distinct_weighted_symbols: "distinct (map of_nat (weighted_symbols f) :: byte list)"
proof -
  have "inj_on (of_nat :: nat \<Rightarrow> byte) (set (weighted_symbols f))"
  proof (rule inj_onI)
    fix i j :: nat
    assume "i \<in> set (weighted_symbols f)" "j \<in> set (weighted_symbols f)"
      and eq: "(of_nat i :: byte) = of_nat j"
    then have "i < 128" "j < 128" by (simp_all add: set_weighted_symbols)
    then show "i = j" using eq by (metis unat_of_nat_byte)
  qed
  moreover have "distinct (weighted_symbols f)" by (simp add: weighted_symbols_def)
  ultimately show ?thesis by (simp add: distinct_map)
qed

text \<open>What \<open>build_tree\<close> returns on the heap of the 128 leaves with weights \<open>f\<close>.\<close>

lemma build_tree_leaf_heap_errors:
  "weighted_symbols f = [] \<Longrightarrow> build_tree_Heap (leaf_heap f) = Inl UndefinedBehaviour"
  "length (weighted_symbols f) = 1 \<Longrightarrow> build_tree_Heap (leaf_heap f) = Inl SingleSymbolError"
proof -
  show "weighted_symbols f = [] \<Longrightarrow> build_tree_Heap (leaf_heap f) = Inl UndefinedBehaviour"
    by (simp add: build_tree_Heap_eq all_weights_zero_leaf_heap)
  assume one: "length (weighted_symbols f) = 1"
  then have "weighted_symbols f \<noteq> []" by auto
  moreover have "length (nonzero_sorted (leaf_heap f)) = 1"
    using one by (simp add: length_nonzero_sorted filter_leaf_heap)
  ultimately show "build_tree_Heap (leaf_heap f) = Inl SingleSymbolError"
    by (simp add: build_tree_Heap_eq all_weights_zero_leaf_heap)
qed

lemma build_tree_leaf_heap:
  assumes "2 \<le> length (weighted_symbols f)"
  shows "\<exists>t. build_tree_Heap (leaf_heap f) = Inr t \<and> valid_tree t \<and> internal t
      \<and> mset (leaves t) = mset (map of_nat (weighted_symbols f))"
proof -
  let ?nz = "nonzero_sorted (leaf_heap f)"
  let ?leafs = "map (\<lambda>i. Weighted_Node nullptr nullptr (of_nat i) (f i)) (weighted_symbols f)"
  have ms: "mset ?nz = mset ?leafs"
    by (simp add: nonzero_sorted_def filter_leaf_heap)
  have len: "length ?nz = length (weighted_symbols f)"
    by (simp add: length_nonzero_sorted filter_leaf_heap)
  with assms have ne: "?nz \<noteq> []" by auto
  have "\<forall>n\<in>set ?nz. valid_tree (new_Node n)"
  proof
    fix n assume "n \<in> set ?nz"
    then have "n \<in> set ?leafs" using ms by (metis set_mset_mset)
    then obtain i where "i \<in> set (weighted_symbols f)"
        "n = Weighted_Node nullptr nullptr (of_nat i) (f i)"
      by auto
    then show "valid_tree (new_Node n)"
      by (simp add: set_weighted_symbols of_nat_less_0x80)
  qed
  from merge_nodes_invariant [OF ne this] obtain root where
    r: "merge_nodes ?nz = [root]" "valid_tree (new_Node root)"
      "mset (leaves (new_Node root)) = heap_leaves ?nz"
    by blast
  have "heap_leaves ?nz = heap_leaves ?leafs" using ms by (rule heap_leaves_mset)
  with r(3) have lv: "mset (leaves (new_Node root)) = mset (map of_nat (weighted_symbols f))"
    by (simp add: heap_leaves_leaf_nodes)
  then have "length (leaves (new_Node root)) = length (weighted_symbols f)"
    by (metis length_map size_mset)
  with assms r(2) have "internal (new_Node root)" by (simp add: valid_tree_internal)
  moreover have "build_tree_Heap (leaf_heap f) = Inr (new_Node root)"
    using assms len r(1) by (auto simp: build_tree_Heap_eq all_weights_zero_leaf_heap)
  ultimately show ?thesis using r(2) lv by blast
qed

lemma build_tree_string_leaf_heap:
  "\<forall>c\<in>set s. c < 0x80 \<Longrightarrow>
   build_tree_string s = build_tree_Heap (leaf_heap (\<lambda>i. of_nat (count_list s (of_nat i))))"
  by (simp add: build_tree_string_def set_values_Heap_128 count_chars_leaf_heap)

lemma build_tree_Counter_leaf_heap:
  "length counter = 128 \<Longrightarrow>
   build_tree_Counter counter = build_tree_Heap (leaf_heap (\<lambda>i. counter ! i))"
  using set_counts_Heap_128 [of counter] by (simp add: build_tree_Counter_def)

lemma build_tree_Heap_leaf_heap_eval:
  "build_tree_Heap (leaf_heap f) =
     (case sort_key weight (map (\<lambda>i. Weighted_Node nullptr nullptr (of_nat i) (f i)) (weighted_symbols f)) of
        [] \<Rightarrow> Inl UndefinedBehaviour
      | [x] \<Rightarrow> Inl SingleSymbolError
      | x # y # heap \<Rightarrow> Inr (new_Node (hd (merge_nodes (x # y # heap)))))"
proof -
  let ?leafs = "map (\<lambda>i. Weighted_Node nullptr nullptr (of_nat i) (f i)) (weighted_symbols f)"
  have nz: "nonzero_sorted (leaf_heap f) = sort_key weight ?leafs"
    by (simp add: nonzero_sorted_def filter_leaf_heap)
  have z: "(\<forall>x\<in>set (leaf_heap f). weight x = 0) \<longleftrightarrow> sort_key weight ?leafs = []"
    using nonzero_sorted_eq_Nil [of "leaf_heap f"] nz by simp
  show ?thesis
  proof (cases "sort_key weight ?leafs" rule: remdups_adj.cases)
    case 1
    then show ?thesis by (simp add: build_tree_Heap_eq z nz)
  next
    case (2 x)
    then show ?thesis by (simp add: build_tree_Heap_eq z nz)
  next
    case (3 x y heap)
    then show ?thesis by (simp add: build_tree_Heap_eq z nz del: merge_nodes_Cons2)
  qed
qed

lemma weighted_symbols_eqI:
  assumes "sorted xs" "distinct xs" "set xs = {i. i < 128 \<and> f i \<noteq> 0}"
  shows "weighted_symbols f = xs"
proof (rule sorted_distinct_set_unique)
  show "sorted (weighted_symbols f)" by (simp add: weighted_symbols_def sorted_wrt_filter)
  show "distinct (weighted_symbols f)" by (simp add: weighted_symbols_def)
  show "set (weighted_symbols f) = set xs" using assms(3) by (simp add: set_weighted_symbols)
qed (use assms in simp_all)

subsection \<open>Paths, codes and decoding\<close>

lemma map_fst_leaf_paths: "map fst (leaf_paths t) = leaves t"
  by (induction t) (auto simp: case_prod_unfold comp_def)

lemma fst_leaf_paths: "(c, p) \<in> set (leaf_paths t) \<Longrightarrow> c \<in> set (leaves t)"
  using map_fst_leaf_paths [of t] by (metis fst_conv image_eqI set_map)

lemma walk_leaf_path:
  "internal t \<Longrightarrow> (c, p) \<in> set (leaf_paths t) \<Longrightarrow>
   walk root l2 (p @ rest) (v, cnt, t) =
     (if cnt + length p = l2 then Inr (v @ [c], cnt + length p, root)
      else walk root l2 rest (v @ [c], cnt + length p, root))"
proof (induction t arbitrary: p cnt)
  case nullptr
  then show ?case by simp
next
  case (Node l r x)
  from Node.prems(1) have v: "valid_tree l" "valid_tree r" by simp_all
  then have nn: "l \<noteq> nullptr" "r \<noteq> nullptr" by auto
  with Node.prems(2) obtain b p' where p: "p = b # p'"
    and mem: "(c, p') \<in> set (leaf_paths (if b then r else l))"
    by auto
  define ch where "ch = (if b then r else l)"
  have IH: "internal ch \<Longrightarrow> walk root l2 (p' @ rest) (v, Suc cnt, ch) =
     (if Suc cnt + length p' = l2 then Inr (v @ [c], Suc cnt + length p', root)
      else walk root l2 rest (v @ [c], Suc cnt + length p', root))"
    using Node.IH mem by (cases b) (simp_all add: ch_def)
  from v have "valid_tree ch" by (simp add: ch_def)
  then show ?case
  proof (cases rule: valid_tree_cases)
    case (leaf x1)
    with mem have "c = x1" "p' = []" by (simp_all add: ch_def)
    with leaf p show ?thesis by (simp add: ch_def [symmetric])
  next
    case (node l1 r1)
    then have "internal ch" by simp
    from IH [OF this] node p show ?thesis by (simp add: ch_def [symmetric])
  qed
qed

lemma leaf_paths_internal_ne: "internal t \<Longrightarrow> (c, p) \<in> set (leaf_paths t) \<Longrightarrow> p \<noteq> []"
  by (cases t) (auto simp: valid_tree_not_nullptr)

text \<open>Decoding the bits of the codes of a string, then padding.\<close>

lemma walk_code_bits:
  assumes "internal root"
    and "\<forall>c\<in>set s. (c, cd ! char_index c) \<in> set (leaf_paths root)"
    and "s \<noteq> []"
  shows "walk root (cnt + length (code_bits cd s)) (code_bits cd s @ pad) (v, cnt, root)
     = Inr (v @ s, cnt + length (code_bits cd s), root)"
  using assms(2,3)
proof (induction s arbitrary: v cnt)
  case Nil
  then show ?case by simp
next
  case (Cons c s)
  let ?p = "cd ! char_index c"
  let ?l2 = "cnt + length (code_bits cd (c # s))"
  from Cons.prems have mem: "(c, ?p) \<in> set (leaf_paths root)" by simp
  have step: "walk root ?l2 (?p @ (code_bits cd s @ pad)) (v, cnt, root) =
     (if cnt + length ?p = ?l2 then Inr (v @ [c], cnt + length ?p, root)
      else walk root ?l2 (code_bits cd s @ pad) (v @ [c], cnt + length ?p, root))"
    by (rule walk_leaf_path [OF assms(1) mem])
  show ?case
  proof (cases "s = []")
    case True
    with step show ?thesis by simp
  next
    case False
    then obtain c' s' where s: "s = c' # s'" by (cases s) auto
    with Cons.prems have "(c', cd ! char_index c') \<in> set (leaf_paths root)" by simp
    from leaf_paths_internal_ne [OF assms(1) this] s
    have "cnt + length ?p \<noteq> ?l2" by simp
    moreover have "walk root ((cnt + length ?p) + length (code_bits cd s)) (code_bits cd s @ pad)
        (v @ [c], cnt + length ?p, root)
      = Inr ((v @ [c]) @ s, (cnt + length ?p) + length (code_bits cd s), root)"
      using Cons.prems False by (intro Cons.IH) simp_all
    ultimately show ?thesis using step by (simp add: add.assoc)
  qed
qed

subsection \<open>The code table\<close>

lemma resize_take: "depth \<le> length path \<Longrightarrow> resize path depth = take depth path"
  by (simp add: resize_def)

lemma take_Suc_update: "d < length xs \<Longrightarrow> take (Suc d) (xs[d := b]) = take d xs @ [b]"
  by (simp add: take_Suc_conv_app_nth)

lemma char_index_inj: "c < 0x80 \<Longrightarrow> c' < 0x80 \<Longrightarrow> char_index c = char_index c' \<Longrightarrow> c = c'"
  using char_index_less [of c] char_index_less [of c'] by (simp add: word_unat_eq_iff)

lemma height_internal:
  "l \<noteq> nullptr \<or> r \<noteq> nullptr \<Longrightarrow> height (Node l r x) = Suc (max (height l) (height r))"
  by auto

lemma generate_code_helper_paths:
  "valid_tree t \<Longrightarrow> distinct (leaves t) \<Longrightarrow> length cd = 128 \<Longrightarrow> length path = 128 \<Longrightarrow>
   depth + height t \<le> 128 \<Longrightarrow>
   \<exists>cd' path'. generate_code_helper t cd path depth = Inr (cd', path')
     \<and> length cd' = 128 \<and> length path' = 128 \<and> take depth path' = take depth path
     \<and> (\<forall>(c, p)\<in>set (leaf_paths t). cd' ! char_index c = take depth path @ p)
     \<and> (\<forall>c. c < 0x80 \<and> c \<notin> set (leaves t) \<longrightarrow> cd' ! char_index c = cd ! char_index c)"
proof (induction t arbitrary: cd path depth)
  case nullptr
  then show ?case by simp
next
  case (Node l r x)
  from Node.prems(1) show ?case
  proof (cases rule: valid_tree_cases)
    case (leaf x1)
    then have x: "l = nullptr" "r = nullptr" "x < 0x80" by simp_all
    then have ci: "char_index x < 128" by (simp add: char_index_less_iff)
    have "cd[char_index x := resize path depth] ! char_index c = cd ! char_index c"
      if "c < 0x80" "c \<noteq> x" for c
    proof -
      from that x(3) char_index_inj [of c x] have "char_index x \<noteq> char_index c" by auto
      then show ?thesis by simp
    qed
    with x ci Node.prems(3,4,5) show ?thesis
      by (auto simp: resize_take)
  next
    case (node l1 r1)
    then have lr: "l \<noteq> nullptr" "r \<noteq> nullptr" "valid_tree l" "valid_tree r"
      by auto
    from Node.prems(2) lr have dl: "distinct (leaves l)" and dr: "distinct (leaves r)"
      and disj: "set (leaves l) \<inter> set (leaves r) = {}"
      by auto
    from Node.prems(5) lr have d: "depth < 128" "Suc depth + height r \<le> 128"
      "Suc depth + height l \<le> 128"
      by simp_all
    from Node.IH(2) [OF lr(4) dr Node.prems(3), of "path[depth := True]" "Suc depth"]
      Node.prems(4) d
    obtain cd1 path1 where
      r1: "generate_code_helper r cd (path[depth := True]) (Suc depth) = Inr (cd1, path1)"
        "length cd1 = 128" "length path1 = 128"
        "take (Suc depth) path1 = take (Suc depth) (path[depth := True])"
        "\<forall>(c, p)\<in>set (leaf_paths r). cd1 ! char_index c
            = take (Suc depth) (path[depth := True]) @ p"
        "\<forall>c. c < 0x80 \<and> c \<notin> set (leaves r) \<longrightarrow> cd1 ! char_index c = cd ! char_index c"
      by auto
    have t1: "take (Suc depth) (path[depth := True]) = take depth path @ [True]"
      using d(1) Node.prems(4) by (simp add: take_Suc_update)
    have tp1: "take depth path1 = take depth path"
    proof -
      have "take depth path1 = take depth (take (Suc depth) path1)" by simp
      also have "\<dots> = take depth (take depth path @ [True])" using r1(4) t1 by simp
      also have "\<dots> = take depth path" using d(1) Node.prems(4) by simp
      finally show ?thesis .
    qed
    from Node.IH(1) [OF lr(3) dl r1(2), of "path1[depth := False]" "Suc depth"] r1(3) d
    obtain cd2 path2 where
      r2: "generate_code_helper l cd1 (path1[depth := False]) (Suc depth) = Inr (cd2, path2)"
        "length cd2 = 128" "length path2 = 128"
        "take (Suc depth) path2 = take (Suc depth) (path1[depth := False])"
        "\<forall>(c, p)\<in>set (leaf_paths l). cd2 ! char_index c
            = take (Suc depth) (path1[depth := False]) @ p"
        "\<forall>c. c < 0x80 \<and> c \<notin> set (leaves l) \<longrightarrow> cd2 ! char_index c = cd1 ! char_index c"
      by auto
    have t2: "take (Suc depth) (path1[depth := False]) = take depth path @ [False]"
      using d(1) r1(3) tp1 by (simp add: take_Suc_update)
    have tp2: "take depth path2 = take depth path"
    proof -
      have "take depth path2 = take depth (take (Suc depth) path2)" by simp
      also have "\<dots> = take depth (take depth path @ [False])" using r2(4) t2 by simp
      also have "\<dots> = take depth path" using d(1) Node.prems(4) by simp
      finally show ?thesis .
    qed
    have run: "generate_code_helper (Node l r x) cd path depth = Inr (cd2, path2)"
      using lr(1,2) d(1) Node.prems(4) r1(1,3) r2(1) by simp
    have right: "cd2 ! char_index c = take depth path @ True # p"
      if "(c, p) \<in> set (leaf_paths r)" for c p
    proof -
      from that have c: "c \<in> set (leaves r)" by (rule fst_leaf_paths)
      with disj have "c \<notin> set (leaves l)" by auto
      moreover from c lr(4) have "c < 0x80" using valid_tree_leaves_less by blast
      ultimately have "cd2 ! char_index c = cd1 ! char_index c" using r2(6) by simp
      also have "\<dots> = take depth path @ True # p" using r1(5) that t1 by auto
      finally show ?thesis .
    qed
    have left: "cd2 ! char_index c = take depth path @ False # p"
      if "(c, p) \<in> set (leaf_paths l)" for c p
      using r2(5) that t2 by auto
    have other: "cd2 ! char_index c = cd ! char_index c"
      if "c < 0x80" "c \<notin> set (leaves (Node l r x))" for c
      using that lr(1) r1(6) r2(6) by simp
    from lr(1) right left
    have "\<forall>(c, p)\<in>set (leaf_paths (Node l r x)). cd2 ! char_index c = take depth path @ p"
      by auto
    with run r2(2,3) tp2 other show ?thesis by blast
  qed
qed

text \<open>The code table of a valid tree with distinct symbols.\<close>

lemma generate_code_paths:
  assumes "valid_tree t" "distinct (leaves t)"
  shows "\<exists>cd. generate_code t = Inr cd \<and> length cd = 128
     \<and> (\<forall>(c, p)\<in>set (leaf_paths t). cd ! char_index c = p)
     \<and> (\<forall>c. c < 0x80 \<and> c \<notin> set (leaves t) \<longrightarrow> cd ! char_index c = [])"
proof -
  have "length (leaves t) \<le> 128"
    using assms valid_tree_leaves_less by (intro bytes_less_128_length) auto
  with valid_tree_height [OF assms(1)] have h: "0 + height t \<le> 128" by simp
  from generate_code_helper_paths [OF assms, of "replicate 128 []" "replicate 128 False" 0] h
  obtain code' path' where
    r: "generate_code_helper t (replicate 128 []) (replicate 128 False) 0 = Inr (code', path')"
      "length code' = 128"
      "\<forall>(c, p)\<in>set (leaf_paths t). code' ! char_index c = take 0 (replicate 128 False) @ p"
      "\<forall>c. c < 0x80 \<and> c \<notin> set (leaves t) \<longrightarrow> code' ! char_index c = replicate 128 [] ! char_index c"
    by auto
  have "code' ! char_index c = []" if "c < 0x80" "c \<notin> set (leaves t)" for c
    using r(4) that char_index_less_iff [of c] by simp
  with r show ?thesis by (auto simp: generate_code_def)
qed

subsection \<open>The tree and the code table of a string\<close>

lemma string_weights_eq_0:
  assumes "length s < 2 ^ 64"
  shows "string_weights s i = 0 \<longleftrightarrow> (of_nat i :: byte) \<notin> set s"
proof -
  have "count_list s (of_nat i :: byte) \<le> length s" by (rule count_le_length)
  with assms have "count_list s (of_nat i :: byte) < 2 ^ 64" by simp
  moreover have "((2::nat) ^ 64 dvd n) = (n = 0)" if "n < 2 ^ 64" for n :: nat
    using that by (metis dvd_imp_le dvd_0_right not_less neq0_conv)
  ultimately have "(of_nat (count_list s (of_nat i :: byte)) :: size_t) = 0
      \<longleftrightarrow> count_list s (of_nat i :: byte) = 0"
    by (simp add: word_of_nat_eq_0_iff)
  then show ?thesis by (simp add: string_weights_def count_list_0_iff)
qed

lemma symbols_of_string:
  assumes "\<forall>c\<in>set s. c < 0x80" "length s < 2 ^ 64"
  shows "of_nat ` set (weighted_symbols (string_weights s)) = set s"
proof
  show "of_nat ` set (weighted_symbols (string_weights s)) \<subseteq> set s"
    using assms(2) by (auto simp: set_weighted_symbols string_weights_eq_0)
next
  show "set s \<subseteq> of_nat ` set (weighted_symbols (string_weights s))"
  proof
    fix c assume c: "c \<in> set s"
    with assms(1) have "unat c < 128" using char_index_less [of c] by simp
    moreover have "of_nat (unat c) = c" by simp
    ultimately have "unat c \<in> set (weighted_symbols (string_weights s))"
      using c assms(2) by (simp add: set_weighted_symbols string_weights_eq_0)
    then show "c \<in> of_nat ` set (weighted_symbols (string_weights s))"
      using \<open>of_nat (unat c) = c\<close> by (metis image_eqI)
  qed
qed

lemma length_weighted_symbols_string:
  assumes "\<forall>c\<in>set s. c < 0x80" "length s < 2 ^ 64"
  shows "length (weighted_symbols (string_weights s)) = card (set s)"
proof -
  let ?ws = "weighted_symbols (string_weights s)"
  have "card (set s) = card (set (map of_nat ?ws :: byte list))"
    using symbols_of_string [OF assms] by simp
  also have "\<dots> = length (map of_nat ?ws :: byte list)"
    by (rule distinct_card) (rule distinct_weighted_symbols)
  finally show ?thesis by simp
qed

text \<open>The tree and the code table that the constructor \<open>HFMTree(const std::string &)\<close> makes.\<close>

lemma HFMTree_string_result:
  assumes "\<forall>c\<in>set s. c < 0x80" "2 \<le> card (set s)" "length s < 2 ^ 64"
  shows "\<exists>h. HFMTree_string s = Inr h \<and> build_tree_string s = Inr (tree h)
     \<and> valid_tree (tree h) \<and> internal (tree h) \<and> distinct (leaves (tree h))
     \<and> set (leaves (tree h)) = set s \<and> length (code h) = 128
     \<and> (\<forall>(c, p)\<in>set (leaf_paths (tree h)). code h ! char_index c = p)
     \<and> (\<forall>c. c < 0x80 \<and> c \<notin> set s \<longrightarrow> code h ! char_index c = [])"
proof -
  let ?ws = "weighted_symbols (string_weights s)"
  have bt: "build_tree_string s = build_tree_Heap (leaf_heap (string_weights s))"
    using build_tree_string_leaf_heap [OF assms(1)] by (simp add: string_weights_def [abs_def])
  have "2 \<le> length ?ws" using assms by (simp add: length_weighted_symbols_string)
  from build_tree_leaf_heap [OF this] obtain t where
    t: "build_tree_Heap (leaf_heap (string_weights s)) = Inr t" "valid_tree t" "internal t"
      "mset (leaves t) = mset (map of_nat ?ws)"
    by blast
  from t(4) have dist: "distinct (leaves t)"
    using distinct_weighted_symbols [of "string_weights s"] by (metis mset_eq_imp_distinct_iff)
  from t(4) have "set (leaves t) = set (map of_nat ?ws :: byte list)" by (rule mset_eq_setD)
  then have sl: "set (leaves t) = set s" using symbols_of_string [OF assms(1,3)] by simp
  from generate_code_paths [OF t(2) dist] obtain cd where
    cd: "generate_code t = Inr cd" "length cd = 128"
      "\<forall>(c, p)\<in>set (leaf_paths t). cd ! char_index c = p"
      "\<forall>c. c < 0x80 \<and> c \<notin> set (leaves t) \<longrightarrow> cd ! char_index c = []"
    by blast
  have "HFMTree_string s = Inr \<lparr>tree = t, code = cd\<rparr>"
    using bt t(1) cd(1) by (simp add: HFMTree_string_def HFMTree_of_tree_def)
  with bt t dist sl cd show ?thesis by (intro exI [of _ "\<lparr>tree = t, code = cd\<rparr>"]) simp
qed

lemma leaf_paths_code:
  assumes "\<forall>(c, p)\<in>set (leaf_paths t). cd ! char_index c = p" "c \<in> set (leaves t)"
  shows "(c, cd ! char_index c) \<in> set (leaf_paths t)"
proof -
  from assms(2) obtain p where "(c, p) \<in> set (leaf_paths t)"
    using map_fst_leaf_paths [of t] by (metis (no_types, lifting) fst_conv imageE prod.collapse set_map)
  with assms(1) show ?thesis by auto
qed

text \<open>Decoding what \<open>encode\<close> returns, for a tree whose code table holds its paths.\<close>

lemma decode_encode:
  assumes "internal (tree h)"
    and "\<forall>(c, p)\<in>set (leaf_paths (tree h)). code h ! char_index c = p"
    and "set s \<subseteq> set (leaves (tree h))" and "s \<noteq> []"
    and "\<forall>c\<in>set s. char_index c < length (code h)"
  shows "\<exists>l2 bytes. encode h s = Inr (l2, bytes) \<and> decode h bytes l2 = Inr s"
proof -
  let ?B = "code_bits (code h) s"
  from encode_result [OF assms(5)] obtain bytes where
    e: "encode h s = Inr (length ?B, bytes)" "length bytes = (length ?B + 7) div 8"
      "bits_of bytes = ?B @ replicate (8 * length bytes - length ?B) False"
    by blast
  have mem: "\<forall>c\<in>set s. (c, code h ! char_index c) \<in> set (leaf_paths (tree h))"
    using assms(2,3) leaf_paths_code by blast
  from assms(4) obtain c s' where s: "s = c # s'" by (cases s) auto
  with mem have "(c, code h ! char_index c) \<in> set (leaf_paths (tree h))" by simp
  from leaf_paths_internal_ne [OF assms(1) this] s have pos: "0 < length ?B" by simp
  moreover have "8 * ((n + 7) div 8 - 1) < n" if "0 < n" for n :: nat
    using that by presburger
  ultimately have "0 + 8 * (length bytes - 1) < length ?B" using e(2) by simp
  from decode_bytes_walk [OF this]
  have "decode_bytes (tree h) (length ?B) bytes ([], 0, tree h)
      = walk (tree h) (length ?B) (bits_of bytes) ([], 0, tree h)" .
  also have "\<dots> = Inr ([] @ s, 0 + length ?B, tree h)"
    unfolding e(3) using walk_code_bits [OF assms(1) mem assms(4), of 0 _ "[]"] by simp
  finally have "decode h bytes (length ?B) = Inr s" by (simp add: decode_def)
  with e(1) show ?thesis by blast
qed

subsection \<open>The tree of a table of weights\<close>


lemma length_weighted_symbols_Counter:
  assumes "length counter = 128"
  shows "length (weighted_symbols (\<lambda>i. counter ! i)) = length (filter (\<lambda>w. w \<noteq> 0) counter)"
proof -
  have "counter = map (\<lambda>i. counter ! i) [0..<128]"
    using assms map_nth [of counter] by simp
  then have "filter (\<lambda>w. w \<noteq> 0) counter
      = map (\<lambda>i. counter ! i) (filter (\<lambda>i. counter ! i \<noteq> 0) [0..<128])"
    by (metis (mono_tags, lifting) filter_map comp_def filter_cong)
  then show ?thesis by (simp add: weighted_symbols_def)
qed

lemma build_tree_Counter_all_zero:
  assumes "length counter = 128" "\<forall>w\<in>set counter. w = 0"
  shows "build_tree_Counter counter = Inl UndefinedBehaviour"
proof -
  have "filter (\<lambda>w. w \<noteq> 0) counter = []" using assms(2) by (simp add: filter_empty_conv)
  then have "weighted_symbols (\<lambda>i. counter ! i) = []"
    using length_weighted_symbols_Counter [OF assms(1)] by simp
  then show ?thesis
    by (simp add: build_tree_Counter_leaf_heap [OF assms(1)] build_tree_leaf_heap_errors)
qed

lemma build_tree_Counter_single_symbol:
  assumes "length counter = 128" "length (filter (\<lambda>w. w \<noteq> 0) counter) = 1"
  shows "build_tree_Counter counter = Inl SingleSymbolError"
  using assms
  by (simp add: build_tree_Counter_leaf_heap build_tree_leaf_heap_errors
      length_weighted_symbols_Counter)

lemma build_tree_Counter_valid:
  assumes "length counter = 128" "build_tree_Counter counter = Inr t"
  shows "valid_tree t \<and> internal t \<and> distinct (leaves t)"
proof -
  let ?f = "\<lambda>i. counter ! i"
  have bt: "build_tree_Heap (leaf_heap ?f) = Inr t"
    using assms by (simp add: build_tree_Counter_leaf_heap)
  have "2 \<le> length (weighted_symbols ?f)"
  proof (rule ccontr)
    assume "\<not> 2 \<le> length (weighted_symbols ?f)"
    then have "length (weighted_symbols ?f) = 0 \<or> length (weighted_symbols ?f) = 1"
      by arith
    then consider "weighted_symbols ?f = []" | "length (weighted_symbols ?f) = 1"
      by auto
    then show False using bt by cases (simp_all add: build_tree_leaf_heap_errors)
  qed
  from build_tree_leaf_heap [OF this] bt
  have t: "valid_tree t" "internal t" "mset (leaves t) = mset (map of_nat (weighted_symbols ?f))"
    by auto
  from t(3) have "distinct (leaves t)"
    using distinct_weighted_symbols [of ?f] by (metis mset_eq_imp_distinct_iff)
  with t show ?thesis by simp
qed

lemma two_nonzero_weights:
  assumes "i < j" "j < 128" "f i \<noteq> 0" "f j \<noteq> 0"
  shows "2 \<le> length (weighted_symbols f)"
proof -
  have "{i, j} \<subseteq> set (weighted_symbols f)" using assms by (simp add: set_weighted_symbols)
  then have "card {i, j} \<le> card (set (weighted_symbols f))" by (intro card_mono) simp_all
  also have "\<dots> \<le> length (weighted_symbols f)" by (rule card_length)
  finally show ?thesis using assms(1) by simp
qed

lemma build_tree_Counter_total:
  assumes "length counter = 128" "i < j" "j < 128" "counter ! i \<noteq> 0" "counter ! j \<noteq> 0"
  shows "\<exists>t. build_tree_Counter counter = Inr t"
  using build_tree_leaf_heap [OF two_nonzero_weights [OF assms(2-5)]]
  by (auto simp: build_tree_Counter_leaf_heap [OF assms(1)])


subsection \<open>Rebuilding a tree from its bytes\<close>

lemma holds_at_Nil [simp]: "holds_at buf p [] \<longleftrightarrow> p \<le> length buf"
  by (simp add: holds_at_def)

lemma holds_at_Cons:
  "holds_at buf p (x # xs) \<longleftrightarrow> p < length buf \<and> buf ! p = x \<and> holds_at buf (Suc p) xs"
proof (cases "p < length buf")
  case True
  then have "drop p buf = buf ! p # drop (Suc p) buf" by (simp add: Cons_nth_drop_Suc)
  with True show ?thesis by (auto simp: holds_at_def)
next
  case False
  then show ?thesis by (simp add: holds_at_def)
qed

lemma holds_at_append:
  "holds_at buf p (xs @ ys) \<longleftrightarrow> holds_at buf p xs \<and> holds_at buf (p + length xs) ys"
proof (induction xs arbitrary: p)
  case Nil
  then show ?case by (auto simp: holds_at_def)
next
  case (Cons x xs)
  then show ?case by (simp add: holds_at_Cons)
qed

lemma holds_at_whole: "holds_at buf 0 buf"
  by (simp add: holds_at_def)

lemma scan_count_0 [simp]: "scan_count buf p 0 = Inr p"
  by (simp add: scan_count.simps)

lemma scan_count_step:
  "cnt \<noteq> 0 \<Longrightarrow> p < length buf \<Longrightarrow>
   scan_count buf p cnt =
     scan_count buf (Suc p)
       (if buf ! p = 0x80 then cnt + 1 else if buf ! p = 0x81 then cnt - 1 else cnt)"
  by (simp add: scan_count.simps [of buf p cnt])

lemma unat_byte_Suc: "unat (cnt :: byte) + 1 < 256 \<Longrightarrow> unat (cnt + 1) = unat cnt + 1"
  by (simp add: unat_add_lem [THEN iffD1])

lemma byte_Suc_neq_0: "unat (cnt :: byte) + 1 < 256 \<Longrightarrow> cnt + 1 \<noteq> 0"
proof
  assume a: "unat cnt + 1 < 256" and z: "cnt + 1 = 0"
  from unat_byte_Suc [OF a] have "unat (cnt + 1) = unat cnt + 1" .
  with z show False by simp
qed

text \<open>Over the bytes of a whole subtree the counter of open markers comes back to its value.\<close>

lemma scan_count_across:
  "valid_tree t \<Longrightarrow> cnt \<noteq> 0 \<Longrightarrow> unat cnt + height t + 1 < 256 \<Longrightarrow>
   holds_at buf p (bytes_of t) \<Longrightarrow>
   scan_count buf p cnt = scan_count buf (p + length (bytes_of t)) cnt"
proof (induction t arbitrary: cnt p)
  case nullptr
  then show ?case by simp
next
  case (Node l r x)
  from Node.prems(3) have c1: "cnt + 1 \<noteq> 0" by (intro byte_Suc_neq_0) simp
  from Node.prems(1) show ?case
  proof (cases rule: valid_tree_cases)
    case (leaf x1)
    then have x: "l = nullptr" "x \<noteq> 0x80" "x \<noteq> 0x81" by auto
    with Node.prems(4) have b: "p < length buf" "buf ! p = 0x80"
      "Suc p < length buf" "buf ! Suc p = x"
      "Suc (Suc p) < length buf" "buf ! Suc (Suc p) = 0x81"
      by (simp_all add: holds_at_Cons)
    have "scan_count buf p cnt = scan_count buf (Suc p) (cnt + 1)"
      using Node.prems(2) b by (simp add: scan_count_step)
    also have "\<dots> = scan_count buf (Suc (Suc p)) (cnt + 1)"
      using c1 b x by (simp add: scan_count_step)
    also have "\<dots> = scan_count buf (Suc (Suc (Suc p))) cnt"
      using c1 b by (simp add: scan_count_step)
    finally show ?thesis using x by simp
  next
    case (node l1 r1)
    then have lr: "l \<noteq> nullptr" "valid_tree l" "valid_tree r" "x = EOF" by auto
    let ?pl = "Suc p + length (bytes_of l)"
    let ?pr = "Suc ?pl + length (bytes_of r)"
    from Node.prems(4) lr(1) have b: "p < length buf" "buf ! p = 0x80"
      "holds_at buf (Suc p) (bytes_of l)"
      "?pl < length buf" "buf ! ?pl = x"
      "holds_at buf (Suc ?pl) (bytes_of r)"
      "?pr < length buf" "buf ! ?pr = 0x81"
      by (simp_all add: holds_at_Cons holds_at_append)
    from Node.prems(3) lr(1) have h: "unat cnt + 1 + height l + 1 < 256"
      "unat cnt + 1 + height r + 1 < 256"
      by simp_all
    then have u: "unat (cnt + 1) + height l + 1 < 256" "unat (cnt + 1) + height r + 1 < 256"
      using unat_byte_Suc [of cnt] by simp_all
    have "scan_count buf p cnt = scan_count buf (Suc p) (cnt + 1)"
      using Node.prems(2) b by (simp add: scan_count_step)
    also have "\<dots> = scan_count buf ?pl (cnt + 1)"
      using Node.IH(1) [OF lr(2) c1 u(1) b(3)] by simp
    also have "\<dots> = scan_count buf (Suc ?pl) (cnt + 1)"
      using c1 b lr(4) by (simp add: scan_count_step EOF_def)
    also have "\<dots> = scan_count buf ?pr (cnt + 1)"
      using Node.IH(2) [OF lr(3) c1 u(2) b(6)] by simp
    also have "\<dots> = scan_count buf (Suc ?pr) cnt"
      using c1 b by (simp add: scan_count_step)
    finally show ?thesis using lr(1) by (simp add: add.assoc)
  qed
qed

text \<open>From behind the open marker of a subtree the scan stops behind its close marker.\<close>

lemma scan_count_inside:
  assumes "valid_tree t" "height t < 254" "holds_at buf p (bytes_of t)"
  shows "scan_count buf (Suc p) 1 = Inr (p + length (bytes_of t))"
  using assms(1)
proof (cases rule: valid_tree_cases)
  case (leaf x)
  then have x: "x \<noteq> 0x80" "x \<noteq> 0x81" by auto
  from assms(3) leaf have b: "Suc p < length buf" "buf ! Suc p = x"
      "Suc (Suc p) < length buf" "buf ! Suc (Suc p) = 0x81"
    by (simp_all add: holds_at_Cons)
  have "scan_count buf (Suc p) 1 = scan_count buf (Suc (Suc p)) 1"
    using b x by (simp add: scan_count_step)
  also have "\<dots> = scan_count buf (Suc (Suc (Suc p))) 0"
    using b by (simp add: scan_count_step)
  finally show ?thesis using leaf by simp
next
  case (node l r)
  then have lr: "l \<noteq> nullptr" by auto
  let ?pl = "Suc p + length (bytes_of l)"
  let ?pr = "Suc ?pl + length (bytes_of r)"
  from assms(3) node lr have b:
      "holds_at buf (Suc p) (bytes_of l)"
      "?pl < length buf" "buf ! ?pl = EOF"
      "holds_at buf (Suc ?pl) (bytes_of r)"
      "?pr < length buf" "buf ! ?pr = 0x81"
    by (simp_all add: holds_at_Cons holds_at_append)
  from assms(2) node lr have h: "unat (1 :: byte) + height l + 1 < 256"
      "unat (1 :: byte) + height r + 1 < 256"
    by simp_all
  have "scan_count buf (Suc p) 1 = scan_count buf ?pl 1"
    using scan_count_across [OF node(2) _ h(1) b(1)] by simp
  also have "\<dots> = scan_count buf (Suc ?pl) 1"
    using b by (simp add: scan_count_step EOF_def)
  also have "\<dots> = scan_count buf ?pr 1"
    using scan_count_across [OF node(3) _ h(2) b(4)] by simp
  also have "\<dots> = scan_count buf (Suc ?pr) 0"
    using b by (simp add: scan_count_step)
  finally show ?thesis using node lr by (simp add: add.assoc)
qed

lemma bytes_of_first: "t \<noteq> nullptr \<Longrightarrow> \<exists>bs. bytes_of t = 0x80 # bs \<and> 2 \<le> length bs"
  by (cases t) auto

text \<open>A node whose subtrees are rebuilt from their bytes is rebuilt, whatever its value.\<close>

lemma build_tree_range_node:
  assumes "valid_tree l" "height l < 254"
    and "holds_at buf (Suc bgn) (bytes_of l)"
    and "pl = Suc bgn + length (bytes_of l)" "pl < length buf" "buf ! pl = x"
    and "build_tree_range buf (Suc bgn) pl = Inr l"
    and "build_tree_range buf (Suc pl) en' = Inr r"
    and "en = Suc en'" "pl < en'"
  shows "build_tree_range buf bgn en = Inr (Node l r x)"
proof -
  from assms(1) have "l \<noteq> nullptr" by auto
  from bytes_of_first [OF this] obtain bs where bs: "bytes_of l = 0x80 # bs" "2 \<le> length bs"
    by blast
  with assms(3) have f: "Suc bgn < length buf" "buf ! Suc bgn = 0x80"
    by (simp_all add: holds_at_Cons)
  have sc: "scan_count buf (Suc (Suc bgn)) 1 = Inr pl"
    using scan_count_inside [OF assms(1,2,3)] assms(4) by simp
  have ne: "Suc bgn \<noteq> en" using assms(4,9,10) by simp
  show ?thesis
    using f sc ne assms(5,6,7,8)
    by (simp add: build_tree_range.simps [of buf bgn] assms(9))
qed

lemma build_tree_range_bytes_of:
  "valid_tree t \<Longrightarrow> height t < 255 \<Longrightarrow> holds_at buf bgn (bytes_of t) \<Longrightarrow>
   en = bgn + length (bytes_of t) \<Longrightarrow> build_tree_range buf bgn en = Inr t"
proof (induction t arbitrary: bgn en)
  case nullptr
  then show ?case by simp
next
  case (Node l r x)
  from Node.prems(1) show ?case
  proof (cases rule: valid_tree_cases)
    case (leaf x1)
    with Node.prems(3) have "Suc bgn < length buf" "buf ! Suc bgn = x" "x \<noteq> 0x80"
      by (auto simp: holds_at_Cons)
    with leaf Node.prems(4) show ?thesis
      by (simp add: build_tree_range.simps [of buf bgn])
  next
    case (node l1 r1)
    then have lr: "l \<noteq> nullptr" "valid_tree l" "valid_tree r" by auto
    with Node.prems(2) have h: "height l < 254" "height l < 255" "height r < 255" by simp_all
    define pl where "pl = Suc bgn + length (bytes_of l)"
    define en' where "en' = Suc pl + length (bytes_of r)"
    from Node.prems(3) lr(1)
    have bl: "holds_at buf (Suc bgn) (bytes_of l)"
      and bx: "pl < length buf" "buf ! pl = x"
      and br: "holds_at buf (Suc pl) (bytes_of r)"
      by (simp_all add: holds_at_Cons holds_at_append pl_def)
    have e: "en = Suc en'" "pl < en'"
      using Node.prems(4) lr(1) by (simp_all add: en'_def pl_def)
    show ?thesis
      by (rule build_tree_range_node [OF lr(2) h(1) bl pl_def bx
            Node.IH(1) [OF lr(2) h(2) bl pl_def] Node.IH(2) [OF lr(3) h(3) br en'_def] e])
  qed
qed

subsection \<open>Failures, empty codes and the value of the root\<close>

text \<open>The only failure of the loops is an execution that leaves defined behaviour.\<close>

lemma scan_count_error: "scan_count buf p cnt = Inl e \<Longrightarrow> e = UndefinedBehaviour"
proof (induction buf p cnt rule: scan_count.induct)
  case (1 buf p cnt)
  show ?case
  proof (cases "cnt = 0")
    case True
    with "1.prems" show ?thesis by simp
  next
    case False
    show ?thesis
    proof (cases "p < length buf")
      case True
      with False "1.prems" "1.IH" show ?thesis by (simp add: scan_count_step)
    next
      case False
      with \<open>cnt \<noteq> 0\<close> "1.prems" show ?thesis by (simp add: scan_count.simps [of buf p])
    qed
  qed
qed

lemma build_tree_range_error:
  "build_tree_range buf bgn en = Inl e \<Longrightarrow> e = UndefinedBehaviour"
proof (induction buf bgn en rule: build_tree_range.induct)
  case (1 buf bgn en)
  from "1.prems" "1.IH" show ?case
    by (subst (asm) build_tree_range.simps)
      (auto split: if_splits sum.splits dest: scan_count_error)
qed

lemma walk_error: "walk root l2 bs st = Inl e \<Longrightarrow> e = UndefinedBehaviour"
proof (induction bs arbitrary: st)
  case Nil
  then show ?case by simp
next
  case (Cons b bs)
  obtain v cnt t where st: "st = (v, cnt, t)" by (cases st)
  from Cons.prems show ?case
    unfolding st by (auto split: Tree.splits if_splits dest: Cons.IH)
qed

lemma decode_bytes_error: "decode_bytes root l2 bytes st = Inl e \<Longrightarrow> e = UndefinedBehaviour"
proof (induction bytes arbitrary: st)
  case Nil
  then show ?case by simp
next
  case (Cons i bytes)
  then show ?case
    by (auto simp: decode_byte_0x80 split: sum.splits dest: walk_error)
qed

lemma decode_error: "decode h bytes l2 = Inl e \<Longrightarrow> e = UndefinedBehaviour"
  by (auto simp: decode_def split: sum.splits dest: decode_bytes_error)

lemma encode_string_error: "encode_string cd s st = Inl e \<Longrightarrow> e = UndefinedBehaviour"
  by (induction s arbitrary: st) (auto split: if_splits)

lemma encode_error: "encode h s = Inl e \<Longrightarrow> e = UndefinedBehaviour"
  by (auto simp: encode_def split: sum.splits if_splits dest: encode_string_error)

text \<open>A symbol with an empty code leaves the state of the encoder as it is.\<close>

lemma encode_string_filter:
  "\<forall>i\<in>set s. char_index i < length cd \<Longrightarrow>
   encode_string cd (filter (\<lambda>i. cd ! char_index i \<noteq> []) s) st = encode_string cd s st"
  by (induction s arbitrary: st) auto

lemma encode_filter:
  "\<forall>i\<in>set s. char_index i < length (code h) \<Longrightarrow>
   encode h (filter (\<lambda>i. code h ! char_index i \<noteq> []) s) = encode h s"
  by (simp add: encode_def encode_string_filter)

lemma same_result_Inl [simp]: "same_result root root' (Inl e) (Inl e)"
  by (simp add: same_result_def)

lemma same_result_root [simp]: "same_result root root' (Inr (v, cnt, root)) (Inr (v, cnt, root'))"
  by (simp add: same_result_def same_cursor_def)

lemma same_result_same [simp]: "same_result root root' (Inr (v, cnt, t)) (Inr (v, cnt, t))"
  by (simp add: same_result_def same_cursor_def)

lemma walk_root_value:
  assumes "root = Node l r x" "root' = Node l r x'"
  shows "same_cursor root root' t t' \<Longrightarrow>
    same_result root root' (walk root l2 bs (v, cnt, t)) (walk root' l2 bs (v, cnt, t'))"
proof (induction bs arbitrary: v cnt t t')
  case Nil
  then show ?case by (auto simp: same_result_def same_cursor_def)
next
  case (Cons b bs)
  have root: "same_cursor root root' root root'" by (simp add: same_cursor_def)
  show ?case
  proof (cases t)
    case nullptr
    with Cons.prems assms have "t' = nullptr" by (auto simp: same_cursor_def)
    with nullptr show ?thesis by simp
  next
    case (Node l0 r0 x0)
    with Cons.prems assms obtain x0' where t': "t' = Node l0 r0 x0'"
      by (auto simp: same_cursor_def)
    show ?thesis
    proof (cases "if b then r0 else l0")
      case nullptr
      with Node t' show ?thesis by simp
    next
      case ch: (Node l1 r1 x1)
      have same: "same_cursor root root' (Node l1 r1 x1) (Node l1 r1 x1)"
        by (simp add: same_cursor_def)
      show ?thesis
      proof (cases "x1 \<noteq> EOF")
        case True
        show ?thesis
        proof (cases "cnt + 1 = l2")
          case eq: True
          with True Node t' ch show ?thesis by simp
        next
          case False
          with True Node t' ch Cons.IH [OF root, of "v @ [x1]" "Suc cnt"] show ?thesis by simp
        qed
      next
        case False
        with Node t' ch Cons.IH [OF same, of v "Suc cnt"] show ?thesis by simp
      qed
    qed
  qed
qed

lemma decode_bytes_root_value:
  assumes "root = Node l r x" "root' = Node l r x'"
  shows "same_cursor root root' t t' \<Longrightarrow>
    same_result root root' (decode_bytes root l2 bytes (v, cnt, t))
      (decode_bytes root' l2 bytes (v, cnt, t'))"
proof (induction bytes arbitrary: v cnt t t')
  case Nil
  then show ?case by (auto simp: same_result_def)
next
  case (Cons i bytes)
  from walk_root_value [OF assms Cons.prems, of l2 "bits_of_byte i" v cnt]
  show ?case
  proof (cases "walk root l2 (bits_of_byte i) (v, cnt, t)")
    case (Inl e)
    with walk_root_value [OF assms Cons.prems, of l2 "bits_of_byte i" v cnt]
    show ?thesis by (simp add: decode_byte_0x80 same_result_def)
  next
    case (Inr st)
    obtain v1 cnt1 t1 where st: "st = (v1, cnt1, t1)" by (cases st)
    with Inr walk_root_value [OF assms Cons.prems, of l2 "bits_of_byte i" v cnt]
    obtain t1' where "walk root' l2 (bits_of_byte i) (v, cnt, t') = Inr (v1, cnt1, t1')"
        "same_cursor root root' t1 t1'"
      by (auto simp: same_result_def)
    with Inr st Cons.IH [of t1 t1' v1 cnt1] show ?thesis
      by (simp add: decode_byte_0x80)
  qed
qed

lemma decode_root_value:
  assumes "tree h = Node l r x" "tree h' = Node l r x'"
  shows "decode h bytes l2 = decode h' bytes l2"
proof -
  have "same_cursor (tree h) (tree h') (tree h) (tree h')" by (simp add: same_cursor_def)
  from decode_bytes_root_value [OF assms this, of l2 bytes "[]" 0]
  show ?thesis by (auto simp: decode_def same_result_def split: sum.splits)
qed

lemma bits_of_byte_eq:
  "bits_of_byte b = [bit b 7, bit b 6, bit b 5, bit b 4, bit b 3, bit b 2, bit b 1, bit b 0]"
proof -
  have "[0..<8] = [0, 1, 2, 3, 4, 5, 6, 7 :: nat]" by (simp add: upt_rec)
  then show ?thesis by (simp add: bits_of_byte_def)
qed

subsection \<open>Example streams and trees\<close>

lemma build_tree_range_stream_abc:
  "build_tree_range (stream_abc filler) 0 (length (stream_abc filler))
     = Inr (Node (Node nullptr nullptr 0x61)
              (Node (Node nullptr nullptr 0x62) (Node nullptr nullptr 0x63) filler) 0xFF)"
  by (simp add: stream_abc_def build_tree_range.simps scan_count.simps)

lemma generate_code_stream_abc:
  "\<exists>cd. generate_code (Node (Node nullptr nullptr 0x61)
              (Node (Node nullptr nullptr 0x62) (Node nullptr nullptr 0x63) filler) 0xFF) = Inr cd"
  by (simp add: generate_code_def char_index_def)

lemma build_tree_Counter_abc: "build_tree_Counter counter_abc = Inr tree_abc"
proof -
  have len: "length counter_abc = 128" by (simp add: counter_abc_def)
  have nth: "counter_abc ! i = (if i = 99 then 2 else if i = 98 then 1 else if i = 97 then 4 else 0)"
    if "i < 128" for i
    using that by (simp add: counter_abc_def nth_list_update)
  have "weighted_symbols (\<lambda>i. counter_abc ! i) = [97, 98, 99]"
    by (rule weighted_symbols_eqI) (auto simp: nth split: if_splits)
  then show ?thesis
    by (simp add: build_tree_Counter_leaf_heap [OF len] build_tree_Heap_leaf_heap_eval nth
        tree_abc_def word_le_nat_alt)
qed



subsection \<open>The nodes that decode takes for leaves\<close>




lemma detected_at_valid: "valid_tree t \<Longrightarrow> detected_at t = leaf_paths t"
  and detected_leaves_valid: "internal t \<Longrightarrow> detected_leaves t = leaf_paths t"
proof (induction t)
  case nullptr
  { case 1 then show ?case by simp }
  { case 2 then show ?case by simp }
next
  case (Node l r x)
  { case 1
    from 1 show ?case
    proof (cases rule: valid_tree_cases)
      case (leaf x1)
      then show ?thesis by (simp add: EOF_def)
    next
      case (node l1 r1)
      then show ?thesis using Node.IH by (auto simp: valid_tree_not_nullptr)
    qed }
  { case 2
    then show ?case using Node.IH by (auto simp: valid_tree_not_nullptr) }
qed





section \<open>The properties of the specification\<close>

text \<open>
  C1: for every string of bytes below 128 with at least two distinct bytes (a
  \<open>std::string\<close> holds fewer than \<open>2^64\<close> bytes), the constructor builds a tree and a
  code table, \<open>encode\<close> returns a bit length and packed bytes, and \<open>decode\<close> of these
  with the same tree returns the string.
\<close>

theorem encode_decode_round_trip:
  assumes "\<forall>c\<in>set s. c < 0x80" "2 \<le> card (set s)" "length s < 2 ^ 64"
  shows "\<exists>h l2 bytes. HFMTree_string s = Inr h \<and> encode h s = Inr (l2, bytes)
     \<and> decode h bytes l2 = Inr s"
proof -
  from HFMTree_string_result [OF assms] obtain h where
    h: "HFMTree_string s = Inr h" "internal (tree h)" "set (leaves (tree h)) = set s"
      "length (code h) = 128"
      "\<forall>(c, p)\<in>set (leaf_paths (tree h)). code h ! char_index c = p"
    by blast
  from assms(2) have "s \<noteq> []" by auto
  moreover have "\<forall>c\<in>set s. char_index c < length (code h)"
    using assms(1) h(4) by (simp add: char_index_less_iff)
  ultimately obtain l2 bytes where "encode h s = Inr (l2, bytes)" "decode h bytes l2 = Inr s"
    using decode_encode [OF h(2) h(5)] h(3) by blast
  with h(1) show ?thesis by blast
qed

theorem encode_decode_round_trip_witness:
  "\<exists>h l2 bytes. HFMTree_string [0x61, 0x62, 0x63, 0x61, 0x62, 0x63, 0x61, 0x62, 0x63] = Inr h
     \<and> encode h [0x61, 0x62, 0x63, 0x61, 0x62, 0x63, 0x61, 0x62, 0x63] = Inr (l2, bytes)
     \<and> decode h bytes l2 = Inr [0x61, 0x62, 0x63, 0x61, 0x62, 0x63, 0x61, 0x62, 0x63]"
  using encode_decode_round_trip [of "[0x61, 0x62, 0x63, 0x61, 0x62, 0x63, 0x61, 0x62, 0x63]"]
  by (simp add: card_insert_if)

text \<open>
  C2: for every table of 128 weights with at least two weights that are not zero,
  \<open>build_tree\<close> returns a tree, \<open>sequence\<close> returns its byte stream, the iterator-based
  \<open>build_tree\<close> on that stream returns a tree, and \<open>sequence\<close> of that tree is the same
  byte stream.
\<close>

theorem sequence_build_tree_round_trip:
  assumes "length counter = 128" "i < j" "j < 128" "counter ! i \<noteq> 0" "counter ! j \<noteq> 0"
  shows "\<exists>t bs t'. build_tree_Counter counter = Inr t \<and> sequence t = Inr bs
     \<and> build_tree_range bs 0 (length bs) = Inr t' \<and> sequence t' = Inr bs"
proof -
  from build_tree_Counter_total [OF assms] obtain t where t: "build_tree_Counter counter = Inr t"
    by blast
  from build_tree_Counter_valid [OF assms(1) t]
  have v: "valid_tree t" "distinct (leaves t)" by simp_all
  then have "length (leaves t) \<le> 128"
    using valid_tree_leaves_less by (intro bytes_less_128_length) auto
  with valid_tree_height [OF v(1)] have h: "height t < 255" by simp
  have s: "sequence t = Inr (bytes_of t)"
    using v(1) by (simp add: sequence_bytes_of valid_tree_no_null_child)
  have "build_tree_range (bytes_of t) 0 (length (bytes_of t)) = Inr t"
    by (rule build_tree_range_bytes_of [OF v(1) h holds_at_whole]) simp
  with t s show ?thesis by blast
qed

theorem sequence_build_tree_round_trip_witness:
  "\<exists>t bs t'. build_tree_Counter counter_ab = Inr t \<and> sequence t = Inr bs
     \<and> build_tree_range bs 0 (length bs) = Inr t' \<and> sequence t' = Inr bs"
  using sequence_build_tree_round_trip [of counter_ab 97 98]
  by (simp add: counter_ab_def)

text \<open>
  C3, as the code has it: \<open>decode\<close> has no \<open>InvalidFormatError\<close>. For every valid tree
  with at least two leaves and every payload with fewer bits than the declared bit
  length, \<open>decode\<close> returns a string, the one it returns for every other declared bit
  length beyond the bits of the payload.
\<close>

theorem decode_short_payload:
  "decode h bytes l2 \<noteq> Inl InvalidFormatError
   \<and> (valid_tree (tree h) \<and> 2 \<le> length (leaves (tree h)) \<and> 8 * length bytes < l2
        \<longrightarrow> (\<exists>v. decode h bytes l2 = Inr v
              \<and> (\<forall>l2'. 8 * length bytes < l2' \<longrightarrow> decode h bytes l2' = Inr v)))"
proof -
  have "decode h bytes l2 \<noteq> Inl InvalidFormatError"
    using decode_error [of h bytes l2 InvalidFormatError] by auto
  moreover have "\<exists>v. decode h bytes l2 = Inr v
      \<and> (\<forall>l2'. 8 * length bytes < l2' \<longrightarrow> decode h bytes l2' = Inr v)"
    if valid: "valid_tree (tree h)" and two: "2 \<le> length (leaves (tree h))"
      and short: "8 * length bytes < l2"
  proof -
    from valid two have int: "internal (tree h)" by (rule valid_tree_internal)
    from decode_bytes_total [OF int int, of l2 bytes "[]" 0] obtain v cnt t where
      d: "decode_bytes (tree h) l2 bytes ([], 0, tree h) = Inr (v, cnt, t)"
      by blast
    have w: "decode_bytes (tree h) n bytes ([], 0, tree h)
        = walk (tree h) n (bits_of bytes) ([], 0, tree h)" if "8 * length bytes < n" for n
      using that by (intro decode_bytes_walk) simp
    have "decode h bytes l2' = Inr v" if "8 * length bytes < l2'" for l2'
    proof -
      have "walk (tree h) l2' (bits_of bytes) ([], 0, tree h)
          = walk (tree h) l2 (bits_of bytes) ([], 0, tree h)"
        using that short by (intro walk_bit_length) simp_all
      with w [OF that] w [OF short]
      have "decode_bytes (tree h) l2' bytes ([], 0, tree h)
          = decode_bytes (tree h) l2 bytes ([], 0, tree h)"
        by simp
      with d show ?thesis by (simp add: decode_def)
    qed
    moreover have "decode h bytes l2 = Inr v" using d by (simp add: decode_def)
    ultimately show ?thesis by simp
  qed
  ultimately show ?thesis by blast
qed

theorem decode_short_payload_witness:
  "decode \<lparr>tree = tree_abc, code = []\<rparr> [0xFE] 16 \<noteq> Inl InvalidFormatError
     \<and> (\<exists>v. decode \<lparr>tree = tree_abc, code = []\<rparr> [0xFE] 16 = Inr v
          \<and> (\<forall>l2'. 8 * length [0xFE :: byte] < l2'
                \<longrightarrow> decode \<lparr>tree = tree_abc, code = []\<rparr> [0xFE] l2' = Inr v))"
  using decode_short_payload [of "\<lparr>tree = tree_abc, code = []\<rparr>" "[0xFE]" 16]
  by (simp add: tree_abc_def EOF_def)

theorem decode_short_payload_counterexample:
  "\<exists>h. HFMTree_Counter counter_abc = Inr h
     \<and> decode h [0xFE] 16 = Inr [0x61, 0x61, 0x61, 0x61, 0x61, 0x61, 0x61]"
proof -
  have v: "valid_tree tree_abc" "distinct (leaves tree_abc)"
    by (simp_all add: tree_abc_def EOF_def)
  from generate_code_paths [OF v] obtain cd where "generate_code tree_abc = Inr cd" by blast
  then have h: "HFMTree_Counter counter_abc = Inr \<lparr>tree = tree_abc, code = cd\<rparr>"
    by (simp add: HFMTree_Counter_def HFMTree_of_tree_def build_tree_Counter_abc)
  have "decode \<lparr>tree = tree_abc, code = cd\<rparr> [0xFE] 16
      = Inr [0x61, 0x61, 0x61, 0x61, 0x61, 0x61, 0x61]"
    by (simp add: decode_def decode_byte_0x80 bits_of_byte_eq tree_abc_def EOF_def)
  with h show ?thesis by simp
qed

text \<open>
  C4, as the code has it: \<open>encode\<close> has no \<open>UnknownSymbolError\<close>. For every code table
  of 128 entries and every input of bytes below 128, \<open>encode\<close> returns a bit length and
  packed bytes, the same as for the input without the bytes whose entry is empty: a
  symbol without a code adds no bits.
\<close>

theorem encode_unknown_symbol:
  "encode h s \<noteq> Inl UnknownSymbolError
   \<and> (length (code h) = 128 \<and> (\<forall>i\<in>set s. i < 0x80)
        \<longrightarrow> (\<exists>l2 bytes. encode h s = Inr (l2, bytes)
              \<and> encode h (filter (\<lambda>i. code h ! char_index i \<noteq> []) s) = Inr (l2, bytes)))"
proof -
  have "encode h s \<noteq> Inl UnknownSymbolError"
    using encode_error [of h s UnknownSymbolError] by auto
  moreover have "\<exists>l2 bytes. encode h s = Inr (l2, bytes)
      \<and> encode h (filter (\<lambda>i. code h ! char_index i \<noteq> []) s) = Inr (l2, bytes)"
    if "length (code h) = 128" "\<forall>i\<in>set s. i < 0x80"
  proof -
    have r: "\<forall>i\<in>set s. char_index i < length (code h)"
      using that by (simp add: char_index_less_iff)
    from encode_result [OF r] obtain bytes where
      "encode h s = Inr (length (code_bits (code h) s), bytes)" by blast
    with encode_filter [OF r] show ?thesis by simp
  qed
  ultimately show ?thesis by blast
qed

theorem encode_unknown_symbol_witness:
  "encode \<lparr>tree = tree_ab, code = (replicate 128 [])[97 := [True], 98 := [False]]\<rparr> [0x61, 0x63]
       \<noteq> Inl UnknownSymbolError
   \<and> (\<exists>l2 bytes.
        encode \<lparr>tree = tree_ab, code = (replicate 128 [])[97 := [True], 98 := [False]]\<rparr> [0x61, 0x63]
          = Inr (l2, bytes)
        \<and> encode \<lparr>tree = tree_ab, code = (replicate 128 [])[97 := [True], 98 := [False]]\<rparr> [0x61]
          = Inr (l2, bytes))"
  using encode_unknown_symbol
    [of "\<lparr>tree = tree_ab, code = (replicate 128 [])[97 := [True], 98 := [False]]\<rparr>" "[0x61, 0x63]"]
  by (simp add: char_index_def)

theorem encode_unknown_symbol_counterexample:
  "\<exists>h. HFMTree_string [0x61, 0x62] = Inr h \<and> code h ! char_index 0x63 = []
     \<and> encode h [0x63] = Inr (0, [])"
proof -
  have "\<forall>c\<in>set [0x61, 0x62 :: byte]. c < 0x80" "2 \<le> card (set [0x61, 0x62 :: byte])"
    "length [0x61, 0x62 :: byte] < 2 ^ 64"
    by (simp_all add: card_insert_if)
  from HFMTree_string_result [OF this] obtain h where
    h: "HFMTree_string [0x61, 0x62] = Inr h" "length (code h) = 128"
      "\<forall>c. c < 0x80 \<and> c \<notin> set [0x61, 0x62] \<longrightarrow> code h ! char_index c = []"
    by blast
  from h(3) have e: "code h ! char_index 0x63 = []" by simp
  have "char_index 0x63 < length (code h)" using h(2) by (simp add: char_index_def)
  with e have "encode h [0x63] = Inr (0, [])" by (simp add: encode_def)
  with h(1) e show ?thesis by blast
qed

text \<open>
  C5: on a table of 128 weights that are all zero, and on the empty string, the loop
  that drops the nodes of weight zero empties the heap and then reads \<open>heap.front()\<close>:
  the execution leaves defined behaviour before it reaches the test that throws
  \<open>EmptyInputError\<close>, and no heap makes \<open>build_tree\<close> throw it.
\<close>

theorem build_tree_all_zero:
  "build_tree_Counter (replicate 128 0) = Inl UndefinedBehaviour
   \<and> build_tree_string [] = Inl UndefinedBehaviour
   \<and> build_tree_Heap heap \<noteq> Inl EmptyInputError"
proof -
  have "build_tree_Heap heap \<noteq> Inl EmptyInputError"
    by (simp add: build_tree_Heap_eq)
  moreover
  have "build_tree_Counter (replicate 128 0) = Inl UndefinedBehaviour"
    by (rule build_tree_Counter_all_zero) simp_all
  moreover have "weighted_symbols (\<lambda>i. 0) = []"
    by (simp add: weighted_symbols_def)
  then have "build_tree_string [] = Inl UndefinedBehaviour"
    by (simp add: build_tree_string_leaf_heap build_tree_leaf_heap_errors)
  ultimately show ?thesis by simp
qed

text \<open>
  C6: when every byte of the input indexes the code table, \<open>encode\<close> returns as bit
  length the sum of the lengths of the codes of the bytes of the input, one summand for
  each occurrence.
\<close>

theorem encode_bit_length:
  "\<forall>i\<in>set s. char_index i < length (code h) \<Longrightarrow>
   \<exists>bytes. encode h s = Inr (sum_list (map (\<lambda>i. length (code h ! char_index i)) s), bytes)"
  using encode_result [of s h] by (auto simp: length_code_bits)

theorem encode_bit_length_witness:
  "char_index 0x61 < 128 \<and> char_index 0x62 < 128
   \<and> (\<exists>bytes. encode \<lparr>tree = nullptr, code = (replicate 128 [])[97 := [False], 98 := [True, True]]\<rparr>
          [0x61, 0x62, 0x61] = Inr (4, bytes))"
proof -
  have four: "Suc (Suc (Suc (Suc 0))) = 4" by simp
  show ?thesis
    using encode_bit_length [of "[0x61, 0x62, 0x61]"
        "\<lparr>tree = nullptr, code = (replicate 128 [])[97 := [False], 98 := [True, True]]\<rparr>"]
    by (simp add: char_index_def four)
qed

text \<open>
  C7: for every valid tree, \<open>sequence\<close> returns a byte stream of the format: a leaf is
  \<open>0x80\<close>, the byte of its symbol, \<open>0x81\<close>; an internal node is \<open>0x80\<close>, the stream
  of its left subtree, one filler byte, the stream of its right subtree, \<open>0x81\<close>.
\<close>

theorem sequence_format:
  "valid_tree t \<Longrightarrow> \<exists>bs. sequence t = Inr bs \<and> serializes t bs"
  using sequence_bytes_of valid_tree_no_null_child valid_tree_serializes by blast

theorem sequence_format_witness:
  "valid_tree (Node (Node nullptr nullptr 0x61) (Node nullptr nullptr 0x62) 0xFF)
   \<and> (\<exists>bs. sequence (Node (Node nullptr nullptr 0x61) (Node nullptr nullptr 0x62) 0xFF) = Inr bs
        \<and> serializes (Node (Node nullptr nullptr 0x61) (Node nullptr nullptr 0x62) 0xFF) bs)"
  using sequence_format [of "Node (Node nullptr nullptr 0x61) (Node nullptr nullptr 0x62) 0xFF"]
  by (simp add: EOF_def)

text \<open>
  C8, as the code has it: the iterator-based \<open>build_tree\<close> has no
  \<open>InvalidFormatError\<close> and does not check the nesting. A stream of at least two bytes
  whose second byte is not \<open>0x80\<close> gives a leaf with that byte, whatever follows it.
\<close>

theorem build_tree_range_no_validation:
  "build_tree_range buf bgn en \<noteq> Inl InvalidFormatError
   \<and> (2 \<le> length buf \<and> buf ! 1 \<noteq> 0x80
        \<longrightarrow> build_tree_range buf 0 (length buf) = Inr (Node nullptr nullptr (buf ! 1)))"
proof -
  have "build_tree_range buf bgn en \<noteq> Inl InvalidFormatError"
    using build_tree_range_error [of buf bgn en InvalidFormatError] by auto
  moreover have "build_tree_range buf 0 (length buf) = Inr (Node nullptr nullptr (buf ! 1))"
    if "2 \<le> length buf" "buf ! 1 \<noteq> 0x80"
    using that by (simp add: build_tree_range.simps [of buf 0])
  ultimately show ?thesis by simp
qed

theorem build_tree_range_no_validation_witness:
  "build_tree_range [0x80, 0x41, 0x81, 0x81] 0 4 \<noteq> Inl InvalidFormatError
   \<and> build_tree_range [0x80, 0x41, 0x81, 0x81] 0 (length [0x80, 0x41, 0x81, 0x81 :: byte])
       = Inr (Node nullptr nullptr 0x41)"
  using build_tree_range_no_validation [of "[0x80, 0x41, 0x81, 0x81]" 0 4]
  by simp

theorem build_tree_range_counterexample:
  "build_tree_range [0x80, 0x41] 0 2 = Inr (Node nullptr nullptr 0x41)
   \<and> build_tree_range [0x80, 0x41, 0x81, 0x81] 0 4 = Inr (Node nullptr nullptr 0x41)"
  by (simp add: build_tree_range.simps [of _ 0])

text \<open>
  C9, as the code has it: the filler byte becomes the value of the rebuilt node. The
  filler byte of the outermost node is never read by \<open>decode\<close>: two streams that differ
  only there are rebuilt to trees that decode every payload alike. (The filler byte of a
  nested internal node is read by the test \<open>t->value != EOF\<close> of \<open>decode\<close>.)
\<close>

theorem filler_of_root_not_read:
  assumes "valid_tree l" "valid_tree r" "height l < 254" "height r < 255"
  shows "\<exists>t t'.
     build_tree_range ([0x80] @ bytes_of l @ [f] @ bytes_of r @ [0x81]) 0
       (length ([0x80] @ bytes_of l @ [f] @ bytes_of r @ [0x81])) = Inr t
     \<and> build_tree_range ([0x80] @ bytes_of l @ [f'] @ bytes_of r @ [0x81]) 0
       (length ([0x80] @ bytes_of l @ [f'] @ bytes_of r @ [0x81])) = Inr t'
     \<and> (\<forall>h h' bytes l2. tree h = t \<and> tree h' = t'
           \<longrightarrow> decode h bytes l2 = decode h' bytes l2)"
proof -
  have rebuilt: "build_tree_range ([0x80] @ bytes_of l @ [x] @ bytes_of r @ [0x81]) 0
       (length ([0x80] @ bytes_of l @ [x] @ bytes_of r @ [0x81])) = Inr (Node l r x)" for x
  proof -
    let ?buf = "[0x80] @ bytes_of l @ [x] @ bytes_of r @ [0x81]"
    define pl where "pl = Suc 0 + length (bytes_of l)"
    define en' where "en' = Suc pl + length (bytes_of r)"
    have "holds_at ?buf 0 ?buf" by (rule holds_at_whole)
    then have bl: "holds_at ?buf (Suc 0) (bytes_of l)"
      and bx: "pl < length ?buf" "?buf ! pl = x"
      and br: "holds_at ?buf (Suc pl) (bytes_of r)"
      unfolding pl_def by (simp_all only: holds_at_Cons holds_at_append append_Cons append_Nil
          add_Suc add_0 length_Cons list.size)
    from assms(3) have hl: "height l < 255" by simp
    have e: "length ?buf = Suc en'" "pl < en'" by (simp_all add: en'_def pl_def)
    show ?thesis
      by (rule build_tree_range_node [OF assms(1,3) bl pl_def bx
            build_tree_range_bytes_of [OF assms(1) hl bl pl_def]
            build_tree_range_bytes_of [OF assms(2,4) br en'_def] e])
  qed
  have "decode h bytes l2 = decode h' bytes l2"
    if "tree h = Node l r f" "tree h' = Node l r f'" for h h' bytes l2
    using that by (rule decode_root_value)
  with rebuilt [of f] rebuilt [of "f'"] show ?thesis by blast
qed

theorem filler_of_root_not_read_witness:
  "\<exists>t t'.
     build_tree_range [0x80, 0x80, 0x61, 0x81, 0xFF, 0x80, 0x62, 0x81, 0x81] 0
       (length [0x80, 0x80, 0x61, 0x81, 0xFF, 0x80, 0x62, 0x81, 0x81 :: byte]) = Inr t
     \<and> build_tree_range [0x80, 0x80, 0x61, 0x81, 0x41, 0x80, 0x62, 0x81, 0x81] 0
       (length [0x80, 0x80, 0x61, 0x81, 0x41, 0x80, 0x62, 0x81, 0x81 :: byte]) = Inr t'
     \<and> (\<forall>h h' bytes l2. tree h = t \<and> tree h' = t'
           \<longrightarrow> decode h bytes l2 = decode h' bytes l2)"
  using filler_of_root_not_read
    [of "Node nullptr nullptr 0x61" "Node nullptr nullptr 0x62" "0xFF" "0x41"]
  by simp

theorem filler_counterexample:
  "\<exists>h h'. HFMTree_range (stream_abc 0xFF) = Inr h \<and> HFMTree_range (stream_abc 0x41) = Inr h'
     \<and> decode h [0x80] 2 = Inr [0x62] \<and> decode h' [0x80] 2 = Inr [0x41, 0x61]"
proof -
  let ?t = "\<lambda>filler. Node (Node nullptr nullptr 0x61)
              (Node (Node nullptr nullptr 0x62) (Node nullptr nullptr 0x63) filler) 0xFF"
  from generate_code_stream_abc [of "0xFF"] obtain cd where cd: "generate_code (?t 0xFF) = Inr cd"
    by blast
  from generate_code_stream_abc [of "0x41"] obtain cd' where cd': "generate_code (?t 0x41) = Inr cd'"
    by blast
  have h: "HFMTree_range (stream_abc 0xFF) = Inr \<lparr>tree = ?t 0xFF, code = cd\<rparr>"
    using cd by (simp add: HFMTree_range_def HFMTree_of_tree_def build_tree_range_stream_abc)
  have h': "HFMTree_range (stream_abc 0x41) = Inr \<lparr>tree = ?t 0x41, code = cd'\<rparr>"
    using cd' by (simp add: HFMTree_range_def HFMTree_of_tree_def build_tree_range_stream_abc)
  have d: "decode \<lparr>tree = ?t 0xFF, code = cd\<rparr> [0x80] 2 = Inr [0x62]"
    by (simp add: decode_def decode_byte_0x80 bits_of_byte_eq EOF_def)
  have d': "decode \<lparr>tree = ?t 0x41, code = cd'\<rparr> [0x80] 2 = Inr [0x41, 0x61]"
    by (simp add: decode_def decode_byte_0x80 bits_of_byte_eq EOF_def)
  from h h' d d' show ?thesis by blast
qed




end
